theory Spec2Isabelle
  imports Main
begin

section \<open>FKS two-level perfect hashing (3_perfect_hashing_fks.cpp)\<close>

text \<open>
  The class \<open>PerfectHashing\<close> is embedded with explicit state passing. C++ \<open>int\<close> and
  \<open>long long\<close> values are HOL integers; every place where the C++ program would leave
  defined behaviour is a branch returning an \<open>error\<close>: a remainder by zero, a vector
  access outside its bounds, the signed overflow of \<open>k * k\<close>, and a vector resized to a
  negative length. The product \<open>(long long)a * key + b\<close> of 32-bit operands is exact in
  64 bits, so it is the integer product.
\<close>

subsection \<open>Data\<close>

datatype error = DivisionByZero | OutOfBounds | SignedOverflow | LengthError

text \<open>
  \<open>struct SecondaryTable\<close>. The fields \<open>size\<close>, \<open>a\<close>, \<open>b\<close>, \<open>p\<close> of the source carry the
  suffix 2 (level 2) here, next to \<open>a1\<close>, \<open>b1\<close>, \<open>p1\<close> of level 1.
\<close>

record SecondaryTable =
  table :: "int list"
  size2 :: int
  a2 :: int
  b2 :: int
  p2 :: int

record PerfectHashing =
  buckets :: "int list list"
  secondLevel :: "SecondaryTable list"
  primarySize :: int
  a1 :: int
  b1 :: int
  p1 :: int

definition PRIME :: int where
  "PRIME = 2147483647"

definition INT_MAX :: int where
  "INT_MAX = 2147483647"

definition maxAttempts :: int where
  "maxAttempts = 100"

text \<open>The value-initialised \<open>SecondaryTable()\<close>.\<close>

definition SecondaryTable_new :: SecondaryTable where
  "SecondaryTable_new = \<lparr>table = [], size2 = 0, a2 = 0, b2 = 0, p2 = 0\<rparr>"

subsection \<open>Arithmetic of the source\<close>

text \<open>The C++ operator \<open>%\<close>: the remainder of the division truncated towards zero.\<close>

definition cmod :: "int \<Rightarrow> int \<Rightarrow> int" where
  "cmod x y = sgn x * (\<bar>x\<bar> mod \<bar>y\<bar>)"

text \<open>The conversion of a \<open>size_t\<close> to \<open>int\<close> in \<open>int k = keys.size()\<close>.\<close>

definition to_int :: "nat \<Rightarrow> int" where
  "to_int n = signed_take_bit 31 (int n)"

text \<open>\<open>vector::resize\<close> on a vector of \<open>int\<close>: truncate, or pad with zeros.\<close>

definition resize :: "nat \<Rightarrow> int list \<Rightarrow> int list" where
  "resize n xs = take n xs @ replicate (n - length xs) 0"

subsection \<open>The random source\<close>

text \<open>
  \<open>rand()\<close> is an oracle: \<open>rnd i\<close> is the value returned by the \<open>i\<close>-th call of \<open>rand()\<close>
  in the run of the process (a natural number, as \<open>rand()\<close> returns a value between 0
  and \<open>RAND_MAX\<close>). The process state next to the table is the number of calls made so
  far. \<open>randomizeHashFunction\<close> calls \<open>rand()\<close> three times: for the seed, for \<open>a\<close> and
  for \<open>b\<close>.
\<close>

type_synonym rand = "nat \<Rightarrow> nat"

type_synonym world = "PerfectHashing \<times> nat"

definition randomizeHashFunction :: "rand \<Rightarrow> nat \<Rightarrow> int \<Rightarrow> error + (int \<times> int \<times> int \<times> nat)" where
  "randomizeHashFunction rnd c prime =
     (if prime - 1 = 0 \<or> prime = 0 then Inl DivisionByZero
      else Inr (1 + cmod (int (rnd (c + 1))) (prime - 1),
                cmod (int (rnd (c + 2))) prime,
                prime,
                c + 3))"

subsection \<open>Operations\<close>

text \<open>
  \<open>hashFunction\<close> returns its \<open>long long\<close> remainder as an \<open>int\<close>. The callers pass
  an \<open>int\<close> field or \<open>PRIME\<close> as \<open>p\<close>, and the remainder is smaller than \<open>p\<close> in
  absolute value, so the conversion keeps the value.
\<close>

definition hashFunction :: "int \<Rightarrow> int \<Rightarrow> int \<Rightarrow> int \<Rightarrow> error + int" where
  "hashFunction key a b p =
     (if p = 0 then Inl DivisionByZero else Inr (cmod (a * key + b) p))"

fun isCollisionFree_loop :: "int list \<Rightarrow> int \<Rightarrow> int \<Rightarrow> int \<Rightarrow> int \<Rightarrow> int set \<Rightarrow> error + bool" where
  "isCollisionFree_loop [] a b p tableSize hashed = Inr True"
| "isCollisionFree_loop (key # keys) a b p tableSize hashed =
     (case hashFunction key a b p of
        Inl e \<Rightarrow> Inl e
      | Inr h0 \<Rightarrow>
          if tableSize = 0 then Inl DivisionByZero
          else let h = cmod h0 tableSize in
            if h \<in> hashed then Inr False
            else isCollisionFree_loop keys a b p tableSize (insert h hashed))"

definition isCollisionFree :: "int list \<Rightarrow> int \<Rightarrow> int \<Rightarrow> int \<Rightarrow> int \<Rightarrow> error + bool" where
  "isCollisionFree keys a b p tableSize = isCollisionFree_loop keys a b p tableSize {}"

text \<open>The loop of lines 106 to 109 that places the keys in the fresh slot array.\<close>

fun placeKeys :: "int list \<Rightarrow> int \<Rightarrow> int \<Rightarrow> int \<Rightarrow> int list \<Rightarrow> error + int list" where
  "placeKeys [] a b secondarySize tbl = Inr tbl"
| "placeKeys (key # keys) a b secondarySize tbl =
     (case hashFunction key a b PRIME of
        Inl e \<Rightarrow> Inl e
      | Inr h0 \<Rightarrow>
          if secondarySize = 0 then Inl DivisionByZero
          else let h = cmod h0 secondarySize in
            if 0 \<le> h \<and> nat h < length tbl
            then placeKeys keys a b secondarySize (tbl[nat h := key])
            else Inl OutOfBounds)"

definition setSecond :: "PerfectHashing \<Rightarrow> nat \<Rightarrow> SecondaryTable \<Rightarrow> PerfectHashing" where
  "setSecond ht i s = ht\<lparr>secondLevel := (secondLevel ht)[i := s]\<rparr>"

text \<open>
  The \<open>while (attempts < maxAttempts)\<close> loop of \<open>buildSecondaryTable\<close>. Each attempt draws
  \<open>a\<close> and \<open>b\<close> into locals and writes the prime into the field \<open>p\<close> of the bucket's table.
  \<open>table.assign\<close> with a negative count would ask for a vector longer than
  \<open>max_size\<close> and throw.
\<close>

function buildLoop ::
  "rand \<Rightarrow> int list \<Rightarrow> int \<Rightarrow> nat \<Rightarrow> int \<Rightarrow> world \<Rightarrow> error + (bool \<times> world)" where
  "buildLoop rnd keys secondarySize i attempts (ht, c) =
     (if attempts < maxAttempts then
        (case randomizeHashFunction rnd c PRIME of
           Inl e \<Rightarrow> Inl e
         | Inr (a, b, p, c') \<Rightarrow>
            let ht1 = setSecond ht i ((secondLevel ht ! i)\<lparr>p2 := p\<rparr>) in
            (case isCollisionFree keys a b PRIME secondarySize of
               Inl e \<Rightarrow> Inl e
             | Inr free \<Rightarrow>
                 if free then
                   (if secondarySize < 0 then Inl LengthError
                    else case placeKeys keys a b secondarySize (replicate (nat secondarySize) (- 1)) of
                      Inl e \<Rightarrow> Inl e
                    | Inr tbl \<Rightarrow>
                        Inr (True,
                             setSecond ht1 i ((secondLevel ht1 ! i)
                               \<lparr>table := tbl, size2 := secondarySize, a2 := a, b2 := b\<rparr>),
                             c'))
                 else buildLoop rnd keys secondarySize i (attempts + 1) (ht1, c')))
      else Inr (False, ht, c))"
  by pat_completeness auto
termination
  by (relation "measure (\<lambda>(rnd, keys, secondarySize, i, attempts, w). nat (maxAttempts - attempts))")
     (auto simp: maxAttempts_def)

text \<open>
  \<open>buildSecondaryTable\<close>. The product \<open>k * k\<close> is an \<open>int\<close> in the source: when it
  exceeds \<open>INT_MAX\<close> (more than 46340 keys) the multiplication overflows, which is
  undefined behaviour and the error \<open>SignedOverflow\<close> here.
\<close>

definition buildSecondaryTable :: "rand \<Rightarrow> int \<Rightarrow> world \<Rightarrow> error + (bool \<times> world)" where
  "buildSecondaryTable rnd bucketIdx w =
     (case w of (ht, c) \<Rightarrow>
        if \<not> (0 \<le> bucketIdx \<and> nat bucketIdx < length (buckets ht)
                \<and> nat bucketIdx < length (secondLevel ht))
        then Inl OutOfBounds
        else
          let i = nat bucketIdx;
              keys = buckets ht ! i;
              k = to_int (length keys)
          in
            if k = 0 then
              Inr (True, setSecond ht i ((secondLevel ht ! i)\<lparr>size2 := 0\<rparr>), c)
            else if k = 1 then
              Inr (True,
                   setSecond ht i ((secondLevel ht ! i)
                     \<lparr>table := (resize 1 (table (secondLevel ht ! i)))[0 := keys ! 0],
                      size2 := 1, a2 := 1, b2 := 0, p2 := PRIME\<rparr>),
                   c)
            else if INT_MAX < k * k then Inl SignedOverflow
            else buildLoop rnd keys (k * k) i 0 (ht, c))"

text \<open>\<open>insert\<close> (the name \<open>insert\<close> is a constant of HOL) and \<open>search\<close>.\<close>

definition insert_key :: "rand \<Rightarrow> int \<Rightarrow> world \<Rightarrow> error + (bool \<times> world)" where
  "insert_key rnd key w =
     (case w of (ht, c) \<Rightarrow>
        (case hashFunction key (a1 ht) (b1 ht) (p1 ht) of
           Inl e \<Rightarrow> Inl e
         | Inr h \<Rightarrow>
             if primarySize ht = 0 then Inl DivisionByZero
             else let bucketIdx = cmod h (primarySize ht) in
               if \<not> (0 \<le> bucketIdx \<and> nat bucketIdx < length (buckets ht)) then Inl OutOfBounds
               else buildSecondaryTable rnd bucketIdx
                      (ht\<lparr>buckets := (buckets ht)[nat bucketIdx := buckets ht ! nat bucketIdx @ [key]]\<rparr>, c)))"

definition search :: "int \<Rightarrow> PerfectHashing \<Rightarrow> error + bool" where
  "search key ht =
     (case hashFunction key (a1 ht) (b1 ht) (p1 ht) of
        Inl e \<Rightarrow> Inl e
      | Inr h \<Rightarrow>
          if primarySize ht = 0 then Inl DivisionByZero
          else let bucketIdx = cmod h (primarySize ht) in
            if \<not> (0 \<le> bucketIdx \<and> nat bucketIdx < length (secondLevel ht)) then Inl OutOfBounds
            else let secTable = secondLevel ht ! nat bucketIdx in
              if size2 secTable = 0 then Inr False
              else (case hashFunction key (a2 secTable) (b2 secTable) (p2 secTable) of
                      Inl e \<Rightarrow> Inl e
                    | Inr h0 \<Rightarrow>
                        let h = cmod h0 (size2 secTable) in
                          if 0 \<le> h \<and> nat h < length (table secTable)
                          then Inr (table secTable ! nat h = key)
                          else Inl OutOfBounds))"

text \<open>The constructor \<open>PerfectHashing(int n)\<close>.\<close>

definition PerfectHashing_new :: "rand \<Rightarrow> int \<Rightarrow> nat \<Rightarrow> error + world" where
  "PerfectHashing_new rnd n c =
     (if n < 0 then Inl LengthError
      else case randomizeHashFunction rnd c PRIME of
        Inl e \<Rightarrow> Inl e
      | Inr (a, b, p, c') \<Rightarrow>
          Inr (\<lparr>buckets = replicate (nat n) [],
                secondLevel = replicate (nat n) SecondaryTable_new,
                primarySize = n, a1 = a, b1 = b, p1 = p\<rparr>, c'))"

text \<open>A caller inserting a list of keys one after the other, as \<open>main\<close> does.\<close>

fun insertAll :: "rand \<Rightarrow> int list \<Rightarrow> world \<Rightarrow> error + (bool list \<times> world)" where
  "insertAll rnd [] w = Inr ([], w)"
| "insertAll rnd (key # keys) w =
     (case insert_key rnd key w of
        Inl e \<Rightarrow> Inl e
      | Inr (r, w') \<Rightarrow>
          (case insertAll rnd keys w' of
             Inl e \<Rightarrow> Inl e
           | Inr (rs, w'') \<Rightarrow> Inr (r # rs, w'')))"

subsection \<open>Notions used in the statements\<close>

text \<open>
  The slot that \<open>search\<close> computes for a key in a secondary table, and the bucket
  index that \<open>insert\<close> and \<open>search\<close> compute for it at level 1.
\<close>

definition slot :: "SecondaryTable \<Rightarrow> int \<Rightarrow> int" where
  "slot s key = cmod (cmod (a2 s * key + b2 s) (p2 s)) (size2 s)"

definition route :: "PerfectHashing \<Rightarrow> int \<Rightarrow> int" where
  "route ht key = cmod (cmod (a1 ht * key + b1 ht) (p1 ht)) (primarySize ht)"

text \<open>The slot of a key under the parameters \<open>a\<close>, \<open>b\<close>, \<open>p\<close> in a table of \<open>ss\<close> slots.\<close>

definition slotOf :: "int \<Rightarrow> int \<Rightarrow> int \<Rightarrow> int \<Rightarrow> int \<Rightarrow> int" where
  "slotOf a b p ss key = cmod (cmod (a * key + b) p) ss"

text \<open>
  The parameters that \<open>randomizeHashFunction\<close> draws when \<open>c\<close> calls of \<open>rand()\<close>
  have been made before it.
\<close>

definition drawA :: "rand \<Rightarrow> nat \<Rightarrow> int" where
  "drawA rnd c = 1 + cmod (int (rnd (c + 1))) (PRIME - 1)"

definition drawB :: "rand \<Rightarrow> nat \<Rightarrow> int" where
  "drawB rnd c = cmod (int (rnd (c + 2))) PRIME"

text \<open>The \<open>push_back\<close> of \<open>insert\<close> on bucket \<open>i\<close>.\<close>

definition addKey :: "PerfectHashing \<Rightarrow> nat \<Rightarrow> int \<Rightarrow> PerfectHashing" where
  "addKey ht i key = ht\<lparr>buckets := (buckets ht)[i := buckets ht ! i @ [key]]\<rparr>"

text \<open>The secondary table holds the key at the slot of the key.\<close>

definition indexed :: "SecondaryTable \<Rightarrow> int \<Rightarrow> bool" where
  "indexed s key \<longleftrightarrow>
     size2 s \<noteq> 0 \<and> p2 s \<noteq> 0 \<and> 0 \<le> slot s key \<and> nat (slot s key) < length (table s)
     \<and> table s ! nat (slot s key) = key"

text \<open>
  The invariant of the tables that a construction and inserts reach. For each bucket:
  the key list is short enough for \<open>k * k\<close> to fit an \<open>int\<close> after one more
  \<open>push_back\<close>; the field \<open>size\<close> is the length of the slot array; a slot holds the
  marker -1 or a key of the list; the slot array is empty exactly while the key list
  is; and once the list is non-empty the parameters are those of a build. For the
  table: the two vectors have \<open>primarySize\<close> entries, the level-1 parameters are those
  of the constructor, and every key sits in the bucket it is routed to.
\<close>

definition bucketInv :: "int list \<Rightarrow> SecondaryTable \<Rightarrow> bool" where
  "bucketInv keys s \<longleftrightarrow>
     length keys \<le> 46340 \<and>
     size2 s = int (length (table s)) \<and>
     set (table s) \<subseteq> insert (- 1) (set keys) \<and>
     (keys = [] \<longrightarrow> table s = []) \<and>
     (keys \<noteq> [] \<longrightarrow> table s \<noteq> [] \<and> p2 s = PRIME \<and> 1 \<le> a2 s \<and> 0 \<le> b2 s)"

definition tableInv :: "PerfectHashing \<Rightarrow> bool" where
  "tableInv ht \<longleftrightarrow>
     0 \<le> primarySize ht \<and>
     length (buckets ht) = nat (primarySize ht) \<and>
     length (secondLevel ht) = nat (primarySize ht) \<and>
     1 \<le> a1 ht \<and> 0 \<le> b1 ht \<and> p1 ht = PRIME \<and>
     (\<forall>i < length (buckets ht). bucketInv (buckets ht ! i) (secondLevel ht ! i)) \<and>
     (\<forall>i < length (buckets ht). \<forall>x \<in> set (buckets ht ! i). route ht x = int i)"

text \<open>A key is present: it is in the key list of its bucket and the search finds it.\<close>

definition present :: "PerfectHashing \<Rightarrow> int \<Rightarrow> bool" where
  "present ht x \<longleftrightarrow>
     0 \<le> route ht x \<and> nat (route ht x) < length (buckets ht)
     \<and> x \<in> set (buckets ht ! nat (route ht x))
     \<and> indexed (secondLevel ht ! nat (route ht x)) x"

subsection \<open>Concrete runs\<close>

text \<open>
  A random source whose draws always give \<open>a = 1\<close> and \<open>b = 1\<close>, and the table with
  one bucket built from it, before and after the keys 10 and 20 are inserted.
\<close>

definition rndA :: rand where
  "rndA i = (if i mod 3 = 1 then 0 else 1)"

definition htA0 :: PerfectHashing where
  "htA0 = \<lparr>buckets = [[]], secondLevel = [SecondaryTable_new], primarySize = 1,
            a1 = 1, b1 = 1, p1 = 2147483647\<rparr>"

definition htA2 :: PerfectHashing where
  "htA2 = \<lparr>buckets = [[10, 20]],
            secondLevel = [\<lparr>table = [- 1, 20, - 1, 10], size2 = 4, a2 = 1, b2 = 1, p2 = 2147483647\<rparr>],
            primarySize = 1, a1 = 1, b1 = 1, p1 = 2147483647\<rparr>"

text \<open>
  A random source that always returns 0, so that every draw gives \<open>a = 1\<close> and
  \<open>b = 0\<close>, and the table with five buckets built from it: fresh, after the key 7 is
  inserted, and after the key 7 is inserted a second time.
\<close>

definition rndZero :: rand where "rndZero i = 0"

definition htZ0 :: PerfectHashing where
  "htZ0 = \<lparr>buckets = [[], [], [], [], []],
            secondLevel = [SecondaryTable_new, SecondaryTable_new, SecondaryTable_new,
                           SecondaryTable_new, SecondaryTable_new],
            primarySize = 5, a1 = 1, b1 = 0, p1 = 2147483647\<rparr>"

definition htZ1 :: PerfectHashing where
  "htZ1 = \<lparr>buckets = [[], [], [7], [], []],
            secondLevel = [SecondaryTable_new, SecondaryTable_new,
                           \<lparr>table = [7], size2 = 1, a2 = 1, b2 = 0, p2 = 2147483647\<rparr>,
                           SecondaryTable_new, SecondaryTable_new],
            primarySize = 5, a1 = 1, b1 = 0, p1 = 2147483647\<rparr>"

definition htZ2 :: PerfectHashing where
  "htZ2 = \<lparr>buckets = [[], [], [7, 7], [], []],
            secondLevel = [SecondaryTable_new, SecondaryTable_new,
                           \<lparr>table = [7], size2 = 1, a2 = 1, b2 = 0, p2 = 2147483647\<rparr>,
                           SecondaryTable_new, SecondaryTable_new],
            primarySize = 5, a1 = 1, b1 = 0, p1 = 2147483647\<rparr>"

text \<open>The table of \<open>rndA\<close> after the key 10 alone is inserted.\<close>

definition htA1 :: PerfectHashing where
  "htA1 = \<lparr>buckets = [[10]],
            secondLevel = [\<lparr>table = [10], size2 = 1, a2 = 1, b2 = 0, p2 = 2147483647\<rparr>],
            primarySize = 1, a1 = 1, b1 = 1, p1 = 2147483647\<rparr>"

text \<open>
  A random source whose first 101 draws give \<open>a = 2\<close> and \<open>b = 1\<close> and whose later
  draws give \<open>a = 1\<close> and \<open>b = 0\<close>, and the table with one bucket built from it:
  fresh, after the key 10, after the key 20 (whose build fails 100 times) and after the
  key 30.
\<close>

definition rndB :: rand where
  "rndB i = (if i < 303 then 1 else 0)"

definition htB0 :: PerfectHashing where
  "htB0 = \<lparr>buckets = [[]], secondLevel = [SecondaryTable_new], primarySize = 1,
            a1 = 2, b1 = 1, p1 = 2147483647\<rparr>"

definition htB1 :: PerfectHashing where
  "htB1 = \<lparr>buckets = [[10]],
            secondLevel = [\<lparr>table = [10], size2 = 1, a2 = 1, b2 = 0, p2 = 2147483647\<rparr>],
            primarySize = 1, a1 = 2, b1 = 1, p1 = 2147483647\<rparr>"

definition htB2 :: PerfectHashing where
  "htB2 = \<lparr>buckets = [[10, 20]],
            secondLevel = [\<lparr>table = [10], size2 = 1, a2 = 1, b2 = 0, p2 = 2147483647\<rparr>],
            primarySize = 1, a1 = 2, b1 = 1, p1 = 2147483647\<rparr>"

definition htB3 :: PerfectHashing where
  "htB3 = \<lparr>buckets = [[10, 20, 30]],
            secondLevel = [\<lparr>table = [- 1, 10, 20, 30, - 1, - 1, - 1, - 1, - 1], size2 = 9,
                             a2 = 1, b2 = 0, p2 = 2147483647\<rparr>],
            primarySize = 1, a1 = 2, b1 = 1, p1 = 2147483647\<rparr>"

text \<open>
  The table with one bucket built from \<open>rndZero\<close>, fresh, and the table it becomes
  when the key 7 has been inserted \<open>m\<close> times: only the first insert succeeds, so the
  secondary table stays the one of the single key while the key list grows.
\<close>

definition htD0 :: PerfectHashing where
  "htD0 = \<lparr>buckets = [[]], secondLevel = [SecondaryTable_new], primarySize = 1,
            a1 = 1, b1 = 0, p1 = 2147483647\<rparr>"


text \<open>
  The table with one bucket built from \<open>rndZero\<close> after the key -3 is inserted, and
  the same table with the key -5 appended to the key list, as the build inside the
  insert of -5 finds it.
\<close>

definition htN1 :: PerfectHashing where
  "htN1 = \<lparr>buckets = [[- 3]],
            secondLevel = [\<lparr>table = [- 3], size2 = 1, a2 = 1, b2 = 0, p2 = 2147483647\<rparr>],
            primarySize = 1, a1 = 1, b1 = 0, p1 = 2147483647\<rparr>"


section \<open>Lemmas\<close>

lemma cmod_nonneg: "0 \<le> x \<Longrightarrow> 0 < y \<Longrightarrow> cmod x y = x mod y"
  by (cases "x = 0") (simp_all add: cmod_def)

lemma cmod_range: "0 \<le> x \<Longrightarrow> 0 < y \<Longrightarrow> 0 \<le> cmod x y \<and> cmod x y < y"
  by (simp add: cmod_nonneg)

lemma cmod_one: "cmod x 1 = 0"
  by (simp add: cmod_def)

lemma to_int_small: "n \<le> 46341 \<Longrightarrow> to_int n = int n"
  unfolding to_int_def by (rule signed_take_bit_int_eq_self) simp_all

lemma to_int_zero_iff: "n \<le> 46341 \<Longrightarrow> to_int n = 0 \<longleftrightarrow> n = 0"
  by (simp add: to_int_small)

lemma randomize_PRIME:
  "randomizeHashFunction rnd c PRIME =
     Inr (1 + cmod (int (rnd (c + 1))) (PRIME - 1), cmod (int (rnd (c + 2))) PRIME, PRIME, c + 3)"
  by (simp add: randomizeHashFunction_def PRIME_def)

lemma randomize_a_range: "1 \<le> 1 + cmod (int (rnd j)) (PRIME - 1) \<and> 1 + cmod (int (rnd j)) (PRIME - 1) < PRIME"
  using cmod_range [of "int (rnd j)" "PRIME - 1"] by (simp add: PRIME_def)

lemma randomize_b_range: "0 \<le> cmod (int (rnd j)) PRIME \<and> cmod (int (rnd j)) PRIME < PRIME"
  using cmod_range [of "int (rnd j)" "PRIME"] by (simp add: PRIME_def)

lemma isCollisionFree_loop_iff:
  "p \<noteq> 0 \<Longrightarrow> ss \<noteq> 0 \<Longrightarrow>
   isCollisionFree_loop keys a b p ss hashed =
     Inr (distinct (map (slotOf a b p ss) keys) \<and> slotOf a b p ss ` set keys \<inter> hashed = {})"
  by (induction keys arbitrary: hashed) (auto simp: hashFunction_def slotOf_def Let_def)

lemma isCollisionFree_iff:
  "p \<noteq> 0 \<Longrightarrow> ss \<noteq> 0 \<Longrightarrow>
   isCollisionFree keys a b p ss = Inr (distinct (map (slotOf a b p ss) keys))"
  by (simp add: isCollisionFree_def isCollisionFree_loop_iff)

lemma placeKeys_length: "placeKeys keys a b ss tbl = Inr tbl' \<Longrightarrow> length tbl' = length tbl"
  by (induction keys arbitrary: tbl) (auto simp: hashFunction_def Let_def split: if_splits)

lemma placeKeys_set: "placeKeys keys a b ss tbl = Inr tbl' \<Longrightarrow> set tbl' \<subseteq> set tbl \<union> set keys"
proof (induction keys arbitrary: tbl)
  case Nil
  then show ?case by simp
next
  case (Cons key keys)
  from Cons.prems obtain h where h: "0 \<le> h" "nat h < length tbl"
      and rec: "placeKeys keys a b ss (tbl[nat h := key]) = Inr tbl'"
    by (auto simp: hashFunction_def Let_def split: if_splits)
  from Cons.IH [OF rec] have "set tbl' \<subseteq> set (tbl[nat h := key]) \<union> set keys" .
  moreover have "set (tbl[nat h := key]) \<subseteq> insert key (set tbl)"
    by (rule set_update_subset_insert)
  ultimately show ?case by auto
qed

lemma placeKeys_bounds:
  "placeKeys keys a b ss tbl = Inr tbl' \<Longrightarrow> key \<in> set keys \<Longrightarrow>
   0 \<le> slotOf a b PRIME ss key \<and> nat (slotOf a b PRIME ss key) < length tbl"
proof (induction keys arbitrary: tbl)
  case Nil
  then show ?case by simp
next
  case (Cons x keys)
  from Cons.prems(1) have h: "0 \<le> slotOf a b PRIME ss x" "nat (slotOf a b PRIME ss x) < length tbl"
      and rec: "placeKeys keys a b ss (tbl[nat (slotOf a b PRIME ss x) := x]) = Inr tbl'"
    by (auto simp: hashFunction_def Let_def slotOf_def split: if_splits)
  show ?case
  proof (cases "key = x")
    case True
    with h show ?thesis by simp
  next
    case False
    with Cons.prems(2) have "key \<in> set keys" by simp
    from Cons.IH [OF rec this] show ?thesis by simp
  qed
qed

lemma placeKeys_keeps:
  "placeKeys keys a b ss tbl = Inr tbl' \<Longrightarrow> j < length tbl \<Longrightarrow>
   int j \<notin> slotOf a b PRIME ss ` set keys \<Longrightarrow> tbl' ! j = tbl ! j"
proof (induction keys arbitrary: tbl)
  case Nil
  then show ?case by simp
next
  case (Cons x keys)
  from Cons.prems(1) have h: "0 \<le> slotOf a b PRIME ss x" "nat (slotOf a b PRIME ss x) < length tbl"
      and rec: "placeKeys keys a b ss (tbl[nat (slotOf a b PRIME ss x) := x]) = Inr tbl'"
    by (auto simp: hashFunction_def Let_def slotOf_def split: if_splits)
  from Cons.prems(3) have ne: "int j \<noteq> slotOf a b PRIME ss x" and rest: "int j \<notin> slotOf a b PRIME ss ` set keys"
    by auto
  from ne h have ne': "nat (slotOf a b PRIME ss x) \<noteq> j" by auto
  have "tbl' ! j = (tbl[nat (slotOf a b PRIME ss x) := x]) ! j"
    using Cons.IH [OF rec _ rest] Cons.prems(2) by simp
  with ne' show ?case by simp
qed

lemma placeKeys_stores:
  "placeKeys keys a b ss tbl = Inr tbl' \<Longrightarrow> distinct (map (slotOf a b PRIME ss) keys) \<Longrightarrow>
   key \<in> set keys \<Longrightarrow> tbl' ! nat (slotOf a b PRIME ss key) = key"
proof (induction keys arbitrary: tbl)
  case Nil
  then show ?case by simp
next
  case (Cons x keys)
  from Cons.prems(1) have h: "0 \<le> slotOf a b PRIME ss x" "nat (slotOf a b PRIME ss x) < length tbl"
      and rec: "placeKeys keys a b ss (tbl[nat (slotOf a b PRIME ss x) := x]) = Inr tbl'"
    by (auto simp: hashFunction_def Let_def slotOf_def split: if_splits)
  from Cons.prems(2) have dx: "slotOf a b PRIME ss x \<notin> slotOf a b PRIME ss ` set keys"
      and d: "distinct (map (slotOf a b PRIME ss) keys)" by auto
  show ?case
  proof (cases "key \<in> set keys")
    case True
    from Cons.IH [OF rec d True] show ?thesis .
  next
    case False
    with Cons.prems(3) have kx: "key = x" by simp
    have "int (nat (slotOf a b PRIME ss x)) \<notin> slotOf a b PRIME ss ` set keys"
      using dx h by simp
    from placeKeys_keeps [OF rec _ this] h
    have "tbl' ! nat (slotOf a b PRIME ss x) = (tbl[nat (slotOf a b PRIME ss x) := x]) ! nat (slotOf a b PRIME ss x)"
      by simp
    with h kx show ?thesis by simp
  qed
qed

lemma drawA_range: "1 \<le> drawA rnd c \<and> drawA rnd c < PRIME"
  unfolding drawA_def by (rule randomize_a_range)

lemma drawB_range: "0 \<le> drawB rnd c \<and> drawB rnd c < PRIME"
  unfolding drawB_def by (rule randomize_b_range)

lemma randomize_draw:
  "randomizeHashFunction rnd c PRIME = Inr (drawA rnd c, drawB rnd c, PRIME, c + 3)"
  by (simp add: randomize_PRIME drawA_def drawB_def)

lemma PRIME_neq0: "PRIME \<noteq> 0"
  by (simp add: PRIME_def)

lemma setSecond_twice: "setSecond (setSecond ht i s) i s' = setSecond ht i s'"
  by (simp add: setSecond_def)

lemma secondLevel_setSecond:
  "i < length (secondLevel ht) \<Longrightarrow> secondLevel (setSecond ht i s) ! i = s"
  by (simp add: setSecond_def)

lemma length_secondLevel_setSecond:
  "length (secondLevel (setSecond ht i s)) = length (secondLevel ht)"
  by (simp add: setSecond_def)

text \<open>One unfolding of the loop, with the collision check and the draws resolved.\<close>

lemma buildLoop_unfold:
  assumes "ss \<noteq> 0"
  shows "buildLoop rnd keys ss i att (ht, c) =
     (if att < maxAttempts then
        (if distinct (map (slotOf (drawA rnd c) (drawB rnd c) PRIME ss) keys) then
           (if ss < 0 then Inl LengthError
            else case placeKeys keys (drawA rnd c) (drawB rnd c) ss (replicate (nat ss) (- 1)) of
              Inl e \<Rightarrow> Inl e
            | Inr tbl \<Rightarrow>
                Inr (True,
                     setSecond (setSecond ht i ((secondLevel ht ! i)\<lparr>p2 := PRIME\<rparr>)) i
                       ((secondLevel (setSecond ht i ((secondLevel ht ! i)\<lparr>p2 := PRIME\<rparr>)) ! i)
                          \<lparr>table := tbl, size2 := ss, a2 := drawA rnd c, b2 := drawB rnd c\<rparr>),
                     c + 3))
         else buildLoop rnd keys ss i (att + 1)
                (setSecond ht i ((secondLevel ht ! i)\<lparr>p2 := PRIME\<rparr>), c + 3))
      else Inr (False, ht, c))"
  using assms
  by (subst buildLoop.simps)
     (simp add: randomize_draw isCollisionFree_iff PRIME_neq0 Let_def del: buildLoop.simps)

lemma built_record:
  "(s::SecondaryTable)\<lparr>p2 := P, table := t, size2 := z, a2 := a, b2 := b\<rparr>
     = \<lparr>table = t, size2 = z, a2 = a, b2 = b, p2 = P\<rparr>"
  by (cases s) simp

lemma buildLoop_True_aux:
  assumes "ss \<noteq> 0"
  shows "nat (maxAttempts - att) = n \<Longrightarrow>
         buildLoop rnd keys ss i att (ht, c) = Inr (True, ht', c') \<Longrightarrow>
         \<exists>a b tbl. 1 \<le> a \<and> 0 \<le> b \<and> 0 < ss
           \<and> distinct (map (slotOf a b PRIME ss) keys)
           \<and> placeKeys keys a b ss (replicate (nat ss) (- 1)) = Inr tbl
           \<and> ht' = setSecond ht i \<lparr>table = tbl, size2 = ss, a2 = a, b2 = b, p2 = PRIME\<rparr>"
proof (induction n arbitrary: att ht c)
  case 0
  then have "\<not> att < maxAttempts" by simp
  with "0.prems"(2) show ?case
    by (subst (asm) buildLoop_unfold [OF assms]) simp
next
  case (Suc n)
  let ?a = "drawA rnd c" and ?b = "drawB rnd c"
  let ?ht1 = "setSecond ht i ((secondLevel ht ! i)\<lparr>p2 := PRIME\<rparr>)"
  from Suc.prems(1) have att: "att < maxAttempts" by simp
  show ?case
  proof (cases "distinct (map (slotOf ?a ?b PRIME ss) keys)")
    case True
    from Suc.prems(2) att True obtain tbl where
        ss: "\<not> ss < 0"
        and pk: "placeKeys keys ?a ?b ss (replicate (nat ss) (- 1)) = Inr tbl"
        and ht': "ht' = setSecond ?ht1 i ((secondLevel ?ht1 ! i)\<lparr>table := tbl, size2 := ss, a2 := ?a, b2 := ?b\<rparr>)"
      by (subst (asm) buildLoop_unfold [OF assms]) (auto split: if_splits sum.splits)
    have "ht' = setSecond ht i \<lparr>table = tbl, size2 = ss, a2 = ?a, b2 = ?b, p2 = PRIME\<rparr>"
    proof (cases "i < length (secondLevel ht)")
      case True
      with ht' show ?thesis
        by (simp add: setSecond_twice secondLevel_setSecond built_record)
    next
      case False
      with ht' show ?thesis by (simp add: setSecond_def list_update_beyond)
    qed
    with True pk ss assms drawA_range [of rnd c] drawB_range [of rnd c]
    show ?thesis by (intro exI [of _ ?a] exI [of _ ?b] exI [of _ tbl]) simp
  next
    case False
    with Suc.prems(2) att
    have rec: "buildLoop rnd keys ss i (att + 1) (?ht1, c + 3) = Inr (True, ht', c')"
      by (subst (asm) buildLoop_unfold [OF assms]) simp
    from Suc.prems(1) have "nat (maxAttempts - (att + 1)) = n" by simp
    from Suc.IH [OF this rec]
    obtain a b tbl where ab: "1 \<le> a" "0 \<le> b" "0 < ss" "distinct (map (slotOf a b PRIME ss) keys)"
        "placeKeys keys a b ss (replicate (nat ss) (- 1)) = Inr tbl"
        and ht': "ht' = setSecond ?ht1 i \<lparr>table = tbl, size2 = ss, a2 = a, b2 = b, p2 = PRIME\<rparr>"
      by auto
    have "ht' = setSecond ht i \<lparr>table = tbl, size2 = ss, a2 = a, b2 = b, p2 = PRIME\<rparr>"
      using ht' by (simp add: setSecond_twice)
    with ab show ?thesis by blast
  qed
qed

lemmas buildLoop_True = buildLoop_True_aux [OF _ refl]

text \<open>The rand() calls of the loop: three per attempt, at most 100 attempts.\<close>

lemma buildLoop_calls_aux:
  assumes "ss \<noteq> 0"
  shows "nat (maxAttempts - att) = n \<Longrightarrow>
         buildLoop rnd keys ss i att (ht, c) = Inr (r, ht', c') \<Longrightarrow>
         (\<exists>m \<le> n. c' = c + 3 * m \<and> (\<not> r \<longrightarrow> m = n) \<and> (r \<longrightarrow> 1 \<le> m))"
proof (induction n arbitrary: att ht c)
  case 0
  then have "\<not> att < maxAttempts" by simp
  with "0.prems"(2) show ?case
    by (subst (asm) buildLoop_unfold [OF assms]) simp
next
  case (Suc n)
  let ?a = "drawA rnd c" and ?b = "drawB rnd c"
  let ?ht1 = "setSecond ht i ((secondLevel ht ! i)\<lparr>p2 := PRIME\<rparr>)"
  from Suc.prems(1) have att: "att < maxAttempts" by simp
  show ?case
  proof (cases "distinct (map (slotOf ?a ?b PRIME ss) keys)")
    case True
    from Suc.prems(2) att True have "r \<and> c' = c + 3"
      by (subst (asm) buildLoop_unfold [OF assms]) (auto split: if_splits sum.splits)
    then show ?thesis by (intro exI [of _ 1]) simp
  next
    case False
    with Suc.prems(2) att
    have rec: "buildLoop rnd keys ss i (att + 1) (?ht1, c + 3) = Inr (r, ht', c')"
      by (subst (asm) buildLoop_unfold [OF assms]) simp
    from Suc.prems(1) have "nat (maxAttempts - (att + 1)) = n" by simp
    from Suc.IH [OF this rec]
    obtain m where "m \<le> n" "c' = c + 3 + 3 * m" "\<not> r \<longrightarrow> m = n" by auto
    then show ?thesis by (intro exI [of _ "Suc m"]) simp
  qed
qed

lemma buildLoop_False_aux:
  assumes "ss \<noteq> 0"
  shows "nat (maxAttempts - att) = Suc n \<Longrightarrow>
         buildLoop rnd keys ss i att (ht, c) = Inr (False, ht', c') \<Longrightarrow>
         ht' = setSecond ht i ((secondLevel ht ! i)\<lparr>p2 := PRIME\<rparr>)"
proof (induction n arbitrary: att ht c)
  case 0
  let ?ht1 = "setSecond ht i ((secondLevel ht ! i)\<lparr>p2 := PRIME\<rparr>)"
  from "0.prems"(1) have att: "att < maxAttempts" "\<not> att + 1 < maxAttempts" by simp_all
  from "0.prems"(2) att(1)
  have rec: "buildLoop rnd keys ss i (att + 1) (?ht1, c + 3) = Inr (False, ht', c')"
    by (subst (asm) buildLoop_unfold [OF assms]) (auto split: if_splits sum.splits)
  with att(2) show ?case
    by (subst (asm) buildLoop_unfold [OF assms]) simp
next
  case (Suc n)
  let ?ht1 = "setSecond ht i ((secondLevel ht ! i)\<lparr>p2 := PRIME\<rparr>)"
  from Suc.prems(1) have att: "att < maxAttempts" by simp
  from Suc.prems(2) att
  have rec: "buildLoop rnd keys ss i (att + 1) (?ht1, c + 3) = Inr (False, ht', c')"
    by (subst (asm) buildLoop_unfold [OF assms]) (auto split: if_splits sum.splits)
  from Suc.prems(1) have "nat (maxAttempts - (att + 1)) = Suc n" by simp
  from Suc.IH [OF this rec]
  have "ht' = setSecond ?ht1 i ((secondLevel ?ht1 ! i)\<lparr>p2 := PRIME\<rparr>)" .
  then show ?case
    by (cases "i < length (secondLevel ht)")
       (simp_all add: setSecond_twice secondLevel_setSecond setSecond_def list_update_beyond)
qed

text \<open>When every attempt collides, the loop gives up after the last one.\<close>

lemma buildLoop_all_collide_aux:
  assumes "ss \<noteq> 0"
  shows "nat (maxAttempts - att) = n \<Longrightarrow>
         \<forall>m < n. \<not> distinct (map (slotOf (drawA rnd (c + 3 * m)) (drawB rnd (c + 3 * m)) PRIME ss) keys) \<Longrightarrow>
         \<exists>ht'. buildLoop rnd keys ss i att (ht, c) = Inr (False, ht', c + 3 * n)"
proof (induction n arbitrary: att ht c)
  case 0
  then have "\<not> att < maxAttempts" by simp
  then show ?case
    by (subst buildLoop_unfold [OF assms]) simp
next
  case (Suc n)
  let ?ht1 = "setSecond ht i ((secondLevel ht ! i)\<lparr>p2 := PRIME\<rparr>)"
  from Suc.prems(1) have att: "att < maxAttempts" by simp
  from Suc.prems(2) have first: "\<not> distinct (map (slotOf (drawA rnd c) (drawB rnd c) PRIME ss) keys)"
    by (drule_tac x = 0 in spec) simp
  have rest: "\<forall>m < n. \<not> distinct (map (slotOf (drawA rnd (c + 3 + 3 * m)) (drawB rnd (c + 3 + 3 * m)) PRIME ss) keys)"
  proof (intro allI impI)
    fix m assume "m < n"
    then have "Suc m < Suc n" by simp
    from Suc.prems(2) [rule_format, OF this] show "\<not> distinct (map (slotOf (drawA rnd (c + 3 + 3 * m)) (drawB rnd (c + 3 + 3 * m)) PRIME ss) keys)"
      by (simp add: add.assoc)
  qed
  from Suc.prems(1) have "nat (maxAttempts - (att + 1)) = n" by simp
  from Suc.IH [OF this rest, of ?ht1]
  obtain ht' where "buildLoop rnd keys ss i (att + 1) (?ht1, c + 3) = Inr (False, ht', c + 3 + 3 * n)"
    by blast
  with att first show ?case
    by (subst buildLoop_unfold [OF assms]) (simp add: add.assoc)
qed

lemma resize_one_update: "(resize (Suc 0) xs)[0 := x] = [x]"
  by (cases xs) (simp_all add: resize_def)

lemma singleton_record:
  "(s::SecondaryTable)\<lparr>table := t, size2 := z, a2 := a, b2 := b, p2 := P\<rparr>
     = \<lparr>table = t, size2 = z, a2 = a, b2 = b, p2 = P\<rparr>"
  by (cases s) simp

text \<open>Whatever the build returns, it has touched the secondary table of its bucket only.\<close>

lemma buildLoop_frame_aux:
  assumes "ss \<noteq> 0"
  shows "nat (maxAttempts - att) = n \<Longrightarrow>
         buildLoop rnd keys ss i att (ht, c) = Inr (r, ht', c') \<Longrightarrow>
         \<exists>s. ht' = setSecond ht i s"
proof (induction n arbitrary: att ht c)
  case 0
  then have "\<not> att < maxAttempts" by simp
  with "0.prems"(2) have "ht' = ht"
    by (subst (asm) buildLoop_unfold [OF assms]) simp
  then have "ht' = setSecond ht i (secondLevel ht ! i)"
    by (simp add: setSecond_def)
  then show ?case ..
next
  case (Suc n)
  let ?ht1 = "setSecond ht i ((secondLevel ht ! i)\<lparr>p2 := PRIME\<rparr>)"
  from Suc.prems(1) have att: "att < maxAttempts" by simp
  show ?case
  proof (cases "distinct (map (slotOf (drawA rnd c) (drawB rnd c) PRIME ss) keys)")
    case True
    from Suc.prems(2) att True obtain s where "ht' = setSecond ?ht1 i s"
      by (subst (asm) buildLoop_unfold [OF assms]) (auto split: if_splits sum.splits)
    then have "ht' = setSecond ht i s" by (simp add: setSecond_twice)
    then show ?thesis ..
  next
    case False
    with Suc.prems(2) att
    have rec: "buildLoop rnd keys ss i (att + 1) (?ht1, c + 3) = Inr (r, ht', c')"
      by (subst (asm) buildLoop_unfold [OF assms]) simp
    from Suc.prems(1) have "nat (maxAttempts - (att + 1)) = n" by simp
    from Suc.IH [OF this rec] obtain s where "ht' = setSecond ?ht1 i s" ..
    then have "ht' = setSecond ht i s" by (simp add: setSecond_twice)
    then show ?thesis ..
  qed
qed

lemma to_int_sq_nonzero: "to_int n \<noteq> 0 \<Longrightarrow> to_int n * to_int n \<noteq> 0"
  by simp

lemma build_frame:
  assumes "buildSecondaryTable rnd bucketIdx (ht, c) = Inr (r, ht', c')"
  shows "\<exists>s. ht' = setSecond ht (nat bucketIdx) s"
proof -
  let ?i = "nat bucketIdx" and ?k = "to_int (length (buckets ht ! nat bucketIdx))"
  consider (zero) "?k = 0" | (one) "?k = 1" | (many) "?k \<noteq> 0" "?k \<noteq> 1" by blast
  then show ?thesis
  proof cases
    case zero
    with assms have "ht' = setSecond ht ?i ((secondLevel ht ! ?i)\<lparr>size2 := 0\<rparr>)"
      by (auto simp: buildSecondaryTable_def Let_def split: if_splits)
    then show ?thesis ..
  next
    case one
    with assms show ?thesis
      by (auto simp: buildSecondaryTable_def Let_def split: if_splits)
  next
    case many
    with assms have "buildLoop rnd (buckets ht ! ?i) (?k * ?k) ?i 0 (ht, c) = Inr (r, ht', c')"
      by (auto simp: buildSecondaryTable_def Let_def split: if_splits)
    from buildLoop_frame_aux [OF to_int_sq_nonzero [OF many(1)] refl this] show ?thesis .
  qed
qed

text \<open>The result of a build on a bucket whose length fits an \<open>int\<close>.\<close>

lemma build_result:
  assumes b: "buildSecondaryTable rnd bucketIdx (ht, c) = Inr (r, ht', c')"
      and len: "length (buckets ht ! nat bucketIdx) \<le> 46341"
  shows "(length (buckets ht ! nat bucketIdx) = 0 \<and> r \<and> c' = c
            \<and> ht' = setSecond ht (nat bucketIdx) ((secondLevel ht ! nat bucketIdx)\<lparr>size2 := 0\<rparr>))
       \<or> (length (buckets ht ! nat bucketIdx) = 1 \<and> r \<and> c' = c
            \<and> ht' = setSecond ht (nat bucketIdx)
                 \<lparr>table = [buckets ht ! nat bucketIdx ! 0], size2 = 1, a2 = 1, b2 = 0, p2 = PRIME\<rparr>)
       \<or> (2 \<le> length (buckets ht ! nat bucketIdx) \<and> length (buckets ht ! nat bucketIdx) \<le> 46340 \<and> r
            \<and> (\<exists>a b tbl. 1 \<le> a \<and> 0 \<le> b
                 \<and> distinct (map (slotOf a b PRIME (int (length (buckets ht ! nat bucketIdx)) * int (length (buckets ht ! nat bucketIdx)))) (buckets ht ! nat bucketIdx))
                 \<and> placeKeys (buckets ht ! nat bucketIdx) a b (int (length (buckets ht ! nat bucketIdx)) * int (length (buckets ht ! nat bucketIdx)))
                      (replicate (length (buckets ht ! nat bucketIdx) * length (buckets ht ! nat bucketIdx)) (- 1)) = Inr tbl
                 \<and> ht' = setSecond ht (nat bucketIdx)
                      \<lparr>table = tbl, size2 = int (length (buckets ht ! nat bucketIdx)) * int (length (buckets ht ! nat bucketIdx)), a2 = a, b2 = b, p2 = PRIME\<rparr>))
       \<or> (2 \<le> length (buckets ht ! nat bucketIdx) \<and> length (buckets ht ! nat bucketIdx) \<le> 46340 \<and> \<not> r \<and> c' = c + 300
            \<and> ht' = setSecond ht (nat bucketIdx) ((secondLevel ht ! nat bucketIdx)\<lparr>p2 := PRIME\<rparr>))"
proof -
  let ?i = "nat bucketIdx"
  let ?keys = "buckets ht ! ?i"
  let ?k = "int (length ?keys)"
  have k: "to_int (length ?keys) = ?k" using len by (rule to_int_small)
  consider (zero) "length ?keys = 0" | (one) "length ?keys = 1" | (many) "2 \<le> length ?keys" by linarith
  then show ?thesis
  proof cases
    case zero
    with b k show ?thesis
      by (auto simp: buildSecondaryTable_def Let_def split: if_splits)
  next
    case one
    with b k show ?thesis
      by (auto simp: buildSecondaryTable_def Let_def resize_one_update singleton_record split: if_splits)
  next
    case many
    then have k2: "?k \<noteq> 0" "?k \<noteq> 1" by auto
    from b k k2 have nov: "\<not> INT_MAX < ?k * ?k"
        and loop: "buildLoop rnd ?keys (?k * ?k) ?i 0 (ht, c) = Inr (r, ht', c')"
      by (auto simp: buildSecondaryTable_def Let_def split: if_splits)
    have le: "length ?keys \<le> 46340"
    proof (rule ccontr)
      assume "\<not> length ?keys \<le> 46340"
      then have "46341 \<le> ?k" by simp
      then have "46341 * 46341 \<le> ?k * ?k" by (intro mult_mono) simp_all
      with nov show False by (simp add: INT_MAX_def)
    qed
    have ss: "?k * ?k \<noteq> 0" using k2 by simp
    have nat_ss: "nat (?k * ?k) = length ?keys * length ?keys"
      by (simp add: nat_mult_distrib)
    show ?thesis
    proof (cases r)
      case True
      with loop have "buildLoop rnd ?keys (?k * ?k) ?i 0 (ht, c) = Inr (True, ht', c')" by simp
      from buildLoop_True [OF ss this] many le True nat_ss show ?thesis
        by auto
    next
      case False
      have n: "nat (maxAttempts - 0) = Suc 99" by (simp add: maxAttempts_def)
      from False loop have "buildLoop rnd ?keys (?k * ?k) ?i 0 (ht, c) = Inr (False, ht', c')" by simp
      from buildLoop_False_aux [OF ss n this]
      have h: "ht' = setSecond ht ?i ((secondLevel ht ! ?i)\<lparr>p2 := PRIME\<rparr>)" .
      from buildLoop_calls_aux [OF ss n loop] False have "c' = c + 300" by auto
      with h many le False show ?thesis by simp
    qed
  qed
qed

lemma tableInv_bucket:
  "tableInv ht \<Longrightarrow> i < length (buckets ht) \<Longrightarrow> bucketInv (buckets ht ! i) (secondLevel ht ! i)"
  unfolding tableInv_def by blast

lemma tableInv_route:
  "tableInv ht \<Longrightarrow> i < length (buckets ht) \<Longrightarrow> x \<in> set (buckets ht ! i) \<Longrightarrow> route ht x = int i"
  unfolding tableInv_def by blast

lemma tableInv_lengths: "tableInv ht \<Longrightarrow> length (secondLevel ht) = length (buckets ht)"
  unfolding tableInv_def by simp

lemma tableInv_params: "tableInv ht \<Longrightarrow> 1 \<le> a1 ht \<and> 0 \<le> b1 ht \<and> p1 ht = PRIME"
  unfolding tableInv_def by simp

lemma tableInvI:
  assumes "0 \<le> primarySize ht" "length (buckets ht) = nat (primarySize ht)"
      "length (secondLevel ht) = nat (primarySize ht)"
      "1 \<le> a1 ht" "0 \<le> b1 ht" "p1 ht = PRIME"
      "\<And>i. i < length (buckets ht) \<Longrightarrow> bucketInv (buckets ht ! i) (secondLevel ht ! i)"
      "\<And>i x. i < length (buckets ht) \<Longrightarrow> x \<in> set (buckets ht ! i) \<Longrightarrow> route ht x = int i"
  shows "tableInv ht"
  unfolding tableInv_def using assms by blast

lemma tableInv_sizes:
  "tableInv ht \<Longrightarrow> 0 \<le> primarySize ht \<and> length (buckets ht) = nat (primarySize ht)"
  unfolding tableInv_def by simp

lemma insert_key_unfold:
  "insert_key rnd key (ht, c) =
     (if p1 ht = 0 \<or> primarySize ht = 0 then Inl DivisionByZero
      else if \<not> (0 \<le> route ht key \<and> nat (route ht key) < length (buckets ht)) then Inl OutOfBounds
      else buildSecondaryTable rnd (route ht key) (addKey ht (nat (route ht key)) key, c))"
  by (simp add: insert_key_def hashFunction_def route_def addKey_def Let_def)

lemma search_unfold:
  "search key ht =
     (if p1 ht = 0 \<or> primarySize ht = 0 then Inl DivisionByZero
      else if \<not> (0 \<le> route ht key \<and> nat (route ht key) < length (secondLevel ht)) then Inl OutOfBounds
      else if size2 (secondLevel ht ! nat (route ht key)) = 0 then Inr False
      else if p2 (secondLevel ht ! nat (route ht key)) = 0 then Inl DivisionByZero
      else if 0 \<le> slot (secondLevel ht ! nat (route ht key)) key
              \<and> nat (slot (secondLevel ht ! nat (route ht key)) key) < length (table (secondLevel ht ! nat (route ht key)))
           then Inr (table (secondLevel ht ! nat (route ht key)) ! nat (slot (secondLevel ht ! nat (route ht key)) key) = key)
           else Inl OutOfBounds)"
  by (simp add: search_def hashFunction_def route_def slot_def Let_def)

lemma search_True_iff:
  "search key ht = Inr True \<longleftrightarrow>
     p1 ht \<noteq> 0 \<and> primarySize ht \<noteq> 0 \<and> 0 \<le> route ht key
     \<and> nat (route ht key) < length (secondLevel ht)
     \<and> indexed (secondLevel ht ! nat (route ht key)) key"
  by (auto simp: search_unfold indexed_def)

lemma slot_slotOf: "slot s key = slotOf (a2 s) (b2 s) (p2 s) (size2 s) key"
  by (simp add: slot_def slotOf_def)

lemma indexed_singleton: "indexed \<lparr>table = [key], size2 = 1, a2 = 1, b2 = 0, p2 = PRIME\<rparr> key"
  by (simp add: indexed_def slot_def cmod_one PRIME_def)

lemma bucketInv_singleton: "bucketInv [key] \<lparr>table = [key], size2 = 1, a2 = 1, b2 = 0, p2 = PRIME\<rparr>"
  by (simp add: bucketInv_def)

lemma built_facts:
  assumes pk: "placeKeys keys a b (int (length keys) * int (length keys))
                 (replicate (length keys * length keys) (- 1)) = Inr tbl"
      and d: "distinct (map (slotOf a b PRIME (int (length keys) * int (length keys))) keys)"
      and ab: "1 \<le> a" "0 \<le> b" and len: "2 \<le> length keys" "length keys \<le> 46340"
  shows "bucketInv keys \<lparr>table = tbl, size2 = int (length keys) * int (length keys), a2 = a, b2 = b, p2 = PRIME\<rparr>"
    and "\<forall>x \<in> set keys. indexed \<lparr>table = tbl, size2 = int (length keys) * int (length keys), a2 = a, b2 = b, p2 = PRIME\<rparr> x"
proof -
  let ?ss = "int (length keys) * int (length keys)"
  from placeKeys_length [OF pk] have l: "length tbl = length keys * length keys" by simp
  from len have ne: "keys \<noteq> []" by auto
  then have pos: "0 < length keys * length keys" by simp
  from placeKeys_set [OF pk] have "set tbl \<subseteq> insert (- 1) (set keys)" by auto
  with l pos ab len ne show "bucketInv keys \<lparr>table = tbl, size2 = ?ss, a2 = a, b2 = b, p2 = PRIME\<rparr>"
    by (auto simp: bucketInv_def)
  show "\<forall>x \<in> set keys. indexed \<lparr>table = tbl, size2 = ?ss, a2 = a, b2 = b, p2 = PRIME\<rparr> x"
  proof
    fix x assume x: "x \<in> set keys"
    from placeKeys_bounds [OF pk x] l
    have "0 \<le> slotOf a b PRIME ?ss x" "nat (slotOf a b PRIME ?ss x) < length tbl" by simp_all
    moreover from placeKeys_stores [OF pk d x] have "tbl ! nat (slotOf a b PRIME ?ss x) = x" .
    moreover from pos have "?ss \<noteq> 0" by simp
    ultimately show "indexed \<lparr>table = tbl, size2 = ?ss, a2 = a, b2 = b, p2 = PRIME\<rparr> x"
      by (simp add: indexed_def slot_slotOf PRIME_neq0)
  qed
qed

lemma addKey_simps:
  "buckets (addKey ht i key) = (buckets ht)[i := buckets ht ! i @ [key]]"
  "secondLevel (addKey ht i key) = secondLevel ht"
  "primarySize (addKey ht i key) = primarySize ht"
  "a1 (addKey ht i key) = a1 ht" "b1 (addKey ht i key) = b1 ht" "p1 (addKey ht i key) = p1 ht"
  by (simp_all add: addKey_def)

lemma setSecond_simps:
  "buckets (setSecond ht i s) = buckets ht"
  "secondLevel (setSecond ht i s) = (secondLevel ht)[i := s]"
  "primarySize (setSecond ht i s) = primarySize ht"
  "a1 (setSecond ht i s) = a1 ht" "b1 (setSecond ht i s) = b1 ht" "p1 (setSecond ht i s) = p1 ht"
  by (simp_all add: setSecond_def)

lemma route_frame:
  "primarySize ht' = primarySize ht \<Longrightarrow> a1 ht' = a1 ht \<Longrightarrow> b1 ht' = b1 ht \<Longrightarrow> p1 ht' = p1 ht
   \<Longrightarrow> route ht' = route ht"
  by (rule ext) (simp add: route_def)

lemma same_p2: "p2 s = P \<Longrightarrow> s\<lparr>p2 := P\<rparr> = s"
  by (cases s) auto

text \<open>What a returning insert has done to a table that satisfies the invariant.\<close>

lemma insert_result:
  assumes inv: "tableInv ht"
      and ins: "insert_key rnd key (ht, c) = Inr (r, ht', c')"
  shows "0 \<le> route ht key \<and> nat (route ht key) < length (buckets ht)
       \<and> (\<exists>s'. ht' = setSecond (addKey ht (nat (route ht key)) key) (nat (route ht key)) s'
              \<and> bucketInv (buckets ht ! nat (route ht key) @ [key]) s'
              \<and> (r \<longrightarrow> (\<forall>x \<in> set (buckets ht ! nat (route ht key) @ [key]). indexed s' x))
              \<and> (\<not> r \<longrightarrow> s' = secondLevel ht ! nat (route ht key) \<and> c' = c + 300
                        \<and> buckets ht ! nat (route ht key) \<noteq> [])
              \<and> (buckets ht ! nat (route ht key) = [] \<longrightarrow>
                    r \<and> c' = c \<and> s' = \<lparr>table = [key], size2 = 1, a2 = 1, b2 = 0, p2 = PRIME\<rparr>))"
proof -
  let ?i = "nat (route ht key)"
  let ?keys = "buckets ht ! ?i"
  let ?ht0 = "addKey ht ?i key"
  from ins have rt: "0 \<le> route ht key" "?i < length (buckets ht)"
      and b: "buildSecondaryTable rnd (route ht key) (?ht0, c) = Inr (r, ht', c')"
    by (auto simp: insert_key_unfold split: if_splits)
  from inv rt have binv: "bucketInv ?keys (secondLevel ht ! ?i)"
    by (simp add: tableInv_bucket)
  have keys': "buckets ?ht0 ! ?i = ?keys @ [key]"
    using rt by (simp add: addKey_simps)
  from binv have "length (buckets ?ht0 ! ?i) \<le> 46341"
    by (simp add: keys' bucketInv_def)
  from build_result [OF b this]
  have "\<exists>s'. ht' = setSecond ?ht0 ?i s'
              \<and> bucketInv (?keys @ [key]) s'
              \<and> (r \<longrightarrow> (\<forall>x \<in> set (?keys @ [key]). indexed s' x))
              \<and> (\<not> r \<longrightarrow> s' = secondLevel ht ! ?i \<and> c' = c + 300 \<and> ?keys \<noteq> [])
              \<and> (?keys = [] \<longrightarrow> r \<and> c' = c \<and> s' = \<lparr>table = [key], size2 = 1, a2 = 1, b2 = 0, p2 = PRIME\<rparr>)"
    unfolding keys'
  proof (elim disjE conjE exE)
    assume "length (?keys @ [key]) = 0"
    then show ?thesis by simp
  next
    assume l: "length (?keys @ [key]) = 1" and r: r and c: "c' = c"
       and h: "ht' = setSecond ?ht0 ?i \<lparr>table = [(?keys @ [key]) ! 0], size2 = 1, a2 = 1, b2 = 0, p2 = PRIME\<rparr>"
    from l have e: "?keys = []" by simp
    with h have "ht' = setSecond ?ht0 ?i \<lparr>table = [key], size2 = 1, a2 = 1, b2 = 0, p2 = PRIME\<rparr>"
      by simp
    with e r c show ?thesis
      by (intro exI [of _ "\<lparr>table = [key], size2 = 1, a2 = 1, b2 = 0, p2 = PRIME\<rparr>"])
         (simp add: indexed_singleton bucketInv_singleton)
  next
    fix a b tbl
    let ?ks = "?keys @ [key]"
    let ?s = "\<lparr>table = tbl, size2 = int (length ?ks) * int (length ?ks), a2 = a, b2 = b, p2 = PRIME\<rparr>"
    assume len: "2 \<le> length ?ks" "length ?ks \<le> 46340" and r: r and ab: "1 \<le> a" "0 \<le> b"
       and d: "distinct (map (slotOf a b PRIME (int (length ?ks) * int (length ?ks))) ?ks)"
       and pk: "placeKeys ?ks a b (int (length ?ks) * int (length ?ks))
                  (replicate (length ?ks * length ?ks) (- 1)) = Inr tbl"
       and h: "ht' = setSecond ?ht0 ?i ?s"
    from built_facts [OF pk d ab len] have "bucketInv ?ks ?s" "\<forall>x \<in> set ?ks. indexed ?s x" .
    moreover from len have "?keys \<noteq> []" by auto
    ultimately show ?thesis using h r by (intro exI [of _ ?s]) simp
  next
    let ?ks = "?keys @ [key]"
    assume len: "2 \<le> length ?ks" "length ?ks \<le> 46340" and r: "\<not> r" and c: "c' = c + 300"
       and h: "ht' = setSecond ?ht0 ?i ((secondLevel ?ht0 ! ?i)\<lparr>p2 := PRIME\<rparr>)"
    from len have ne: "?keys \<noteq> []" by auto
    with binv have p: "p2 (secondLevel ht ! ?i) = PRIME" by (simp add: bucketInv_def)
    from h have h': "ht' = setSecond ?ht0 ?i (secondLevel ht ! ?i)"
      by (simp add: addKey_simps same_p2 [OF p])
    from binv ne len have "bucketInv ?ks (secondLevel ht ! ?i)"
      by (auto simp: bucketInv_def)
    with h' r c ne show ?thesis by (intro exI [of _ "secondLevel ht ! ?i"]) simp
  qed
  with rt show ?thesis by simp
qed

lemma bucketInv_new: "bucketInv [] SecondaryTable_new"
  by (simp add: bucketInv_def SecondaryTable_new_def)

lemma new_result:
  assumes "PerfectHashing_new rnd n c = Inr (ht, c')"
  shows "0 \<le> n \<and> c' = c + 3 \<and>
         ht = \<lparr>buckets = replicate (nat n) [], secondLevel = replicate (nat n) SecondaryTable_new,
               primarySize = n, a1 = drawA rnd c, b1 = drawB rnd c, p1 = PRIME\<rparr>"
  using assms by (auto simp: PerfectHashing_new_def randomize_draw split: if_splits)

lemma new_inv:
  assumes "PerfectHashing_new rnd n c = Inr (ht, c')"
  shows "tableInv ht"
proof -
  from new_result [OF assms] have n: "0 \<le> n"
    and ht: "ht = \<lparr>buckets = replicate (nat n) [], secondLevel = replicate (nat n) SecondaryTable_new,
               primarySize = n, a1 = drawA rnd c, b1 = drawB rnd c, p1 = PRIME\<rparr>"
    by simp_all
  show ?thesis
    by (rule tableInvI)
       (use n drawA_range [of rnd c] drawB_range [of rnd c] in \<open>simp_all add: ht bucketInv_new\<close>)
qed

lemma insert_inv:
  assumes inv: "tableInv ht"
      and ins: "insert_key rnd key (ht, c) = Inr (r, ht', c')"
  shows "tableInv ht'"
proof -
  let ?i = "nat (route ht key)"
  from insert_result [OF inv ins] obtain s' where
      rt: "0 \<le> route ht key" "?i < length (buckets ht)"
      and h: "ht' = setSecond (addKey ht ?i key) ?i s'"
      and b: "bucketInv (buckets ht ! ?i @ [key]) s'"
    by blast
  have rte: "route ht' = route ht"
    by (rule route_frame) (simp_all add: h setSecond_simps addKey_simps)
  have bs: "buckets ht' = (buckets ht)[?i := buckets ht ! ?i @ [key]]"
    and sl: "secondLevel ht' = (secondLevel ht)[?i := s']"
    by (simp_all add: h setSecond_simps addKey_simps)
  have len: "length (buckets ht') = length (buckets ht)" by (simp add: bs)
  have pars: "primarySize ht' = primarySize ht" "a1 ht' = a1 ht" "b1 ht' = b1 ht" "p1 ht' = p1 ht"
    by (simp_all add: h setSecond_simps addKey_simps)
  show ?thesis
  proof (rule tableInvI)
    show "0 \<le> primarySize ht'" using tableInv_sizes [OF inv] by (simp add: pars)
    show "length (buckets ht') = nat (primarySize ht')"
      using tableInv_sizes [OF inv] by (simp add: pars len)
    show "length (secondLevel ht') = nat (primarySize ht')"
      using tableInv_sizes [OF inv] tableInv_lengths [OF inv] by (simp add: pars sl)
    show "1 \<le> a1 ht'" "0 \<le> b1 ht'" "p1 ht' = PRIME"
      using tableInv_params [OF inv] by (simp_all add: pars)
  next
    fix j assume "j < length (buckets ht')"
    then have j: "j < length (buckets ht)" by (simp add: len)
    show "bucketInv (buckets ht' ! j) (secondLevel ht' ! j)"
      using j b tableInv_bucket [OF inv j] tableInv_lengths [OF inv]
      by (cases "j = ?i") (simp_all add: bs sl)
  next
    fix j x assume "j < length (buckets ht')" and x: "x \<in> set (buckets ht' ! j)"
    then have j: "j < length (buckets ht)" by (simp add: len)
    have "route ht x = int j"
    proof (cases "j = ?i")
      case True
      with x j have "x \<in> set (buckets ht ! ?i) \<or> x = key" by (auto simp: bs)
      then show ?thesis
      proof
        assume x': "x \<in> set (buckets ht ! ?i)"
        from tableInv_route [OF inv rt(2) x'] True show ?thesis by simp
      next
        assume "x = key"
        with rt True show ?thesis by simp
      qed
    next
      case False
      with x j have "x \<in> set (buckets ht ! j)" by (simp add: bs)
      from tableInv_route [OF inv j this] show ?thesis .
    qed
    then show "route ht' x = int j" by (simp add: rte)
  qed
qed

lemma insertAll_inv:
  "tableInv ht \<Longrightarrow> insertAll rnd ks (ht, c) = Inr (rs, ht', c') \<Longrightarrow> tableInv ht'"
proof (induction ks arbitrary: ht c rs)
  case Nil
  then show ?case by simp
next
  case (Cons k ks)
  from Cons.prems(2) obtain r ht1 c1 rs1 where
      i1: "insert_key rnd k (ht, c) = Inr (r, ht1, c1)"
      and i2: "insertAll rnd ks (ht1, c1) = Inr (rs1, ht', c')"
    by (auto split: sum.splits prod.splits)
  from insert_inv [OF Cons.prems(1) i1] have "tableInv ht1" .
  from Cons.IH [OF this i2] show ?case .
qed

lemma insertAll_length:
  "insertAll rnd ks w = Inr (rs, w') \<Longrightarrow> length rs = length ks"
  by (induction ks arbitrary: w rs) (auto split: sum.splits prod.splits)

lemma present_search: "tableInv ht \<Longrightarrow> present ht x \<Longrightarrow> search x ht = Inr True"
  by (auto simp: search_True_iff present_def tableInv_def PRIME_neq0)

lemma insert_present_new:
  assumes inv: "tableInv ht"
      and ins: "insert_key rnd key (ht, c) = Inr (True, ht', c')"
  shows "present ht' key"
proof -
  let ?i = "nat (route ht key)"
  from insert_result [OF inv ins] obtain s' where
      rt: "0 \<le> route ht key" "?i < length (buckets ht)"
      and h: "ht' = setSecond (addKey ht ?i key) ?i s'"
      and ix: "\<forall>x \<in> set (buckets ht ! ?i @ [key]). indexed s' x"
    by blast
  have rte: "route ht' = route ht"
    by (rule route_frame) (simp_all add: h setSecond_simps addKey_simps)
  from inv rt have "?i < length (secondLevel ht)" by (simp add: tableInv_lengths)
  with rt ix show ?thesis
    by (simp add: present_def rte) (simp add: h setSecond_simps addKey_simps)
qed

lemma insert_present_keeps:
  assumes inv: "tableInv ht"
      and ins: "insert_key rnd key (ht, c) = Inr (r, ht', c')"
      and p: "present ht x"
  shows "present ht' x"
proof -
  let ?i = "nat (route ht key)"
  from insert_result [OF inv ins] obtain s' where
      rt: "0 \<le> route ht key" "?i < length (buckets ht)"
      and h: "ht' = setSecond (addKey ht ?i key) ?i s'"
      and ix: "r \<longrightarrow> (\<forall>x \<in> set (buckets ht ! ?i @ [key]). indexed s' x)"
      and old: "\<not> r \<longrightarrow> s' = secondLevel ht ! ?i"
    by blast
  have rte: "route ht' = route ht"
    by (rule route_frame) (simp_all add: h setSecond_simps addKey_simps)
  have bs: "buckets ht' = (buckets ht)[?i := buckets ht ! ?i @ [key]]"
    and sl: "secondLevel ht' = (secondLevel ht)[?i := s']"
    by (simp_all add: h setSecond_simps addKey_simps)
  from inv rt have li: "?i < length (secondLevel ht)" by (simp add: tableInv_lengths)
  from p have px: "0 \<le> route ht x" "nat (route ht x) < length (buckets ht)"
      "x \<in> set (buckets ht ! nat (route ht x))" "indexed (secondLevel ht ! nat (route ht x)) x"
    by (simp_all add: present_def)
  show ?thesis
  proof (cases "nat (route ht x) = ?i")
    case False
    with px show ?thesis by (simp add: present_def rte bs sl)
  next
    case True
    have "indexed s' x"
    proof (cases r)
      case True
      with ix px \<open>nat (route ht x) = ?i\<close> show ?thesis by simp
    next
      case False
      with old px \<open>nat (route ht x) = ?i\<close> show ?thesis by simp
    qed
    with px True rt li show ?thesis by (simp add: present_def rte bs sl)
  qed
qed

lemma insertAll_present_keeps:
  "tableInv ht \<Longrightarrow> insertAll rnd ks (ht, c) = Inr (rs, ht', c') \<Longrightarrow> present ht x \<Longrightarrow> present ht' x"
proof (induction ks arbitrary: ht c rs)
  case Nil
  then show ?case by simp
next
  case (Cons k ks)
  from Cons.prems(2) obtain r ht1 c1 rs1 where
      i1: "insert_key rnd k (ht, c) = Inr (r, ht1, c1)"
      and i2: "insertAll rnd ks (ht1, c1) = Inr (rs1, ht', c')"
    by (auto split: sum.splits prod.splits)
  from insert_inv [OF Cons.prems(1) i1] have inv1: "tableInv ht1" .
  from insert_present_keeps [OF Cons.prems(1) i1 Cons.prems(3)] have "present ht1 x" .
  from Cons.IH [OF inv1 i2 this] show ?case .
qed

lemma insertAll_found:
  "tableInv ht \<Longrightarrow> insertAll rnd ks (ht, c) = Inr (rs, ht', c') \<Longrightarrow> i < length ks \<Longrightarrow> rs ! i
   \<Longrightarrow> present ht' (ks ! i)"
proof (induction ks arbitrary: ht c rs i)
  case Nil
  then show ?case by simp
next
  case (Cons k ks)
  from Cons.prems(2) obtain r ht1 c1 rs1 where
      i1: "insert_key rnd k (ht, c) = Inr (r, ht1, c1)"
      and i2: "insertAll rnd ks (ht1, c1) = Inr (rs1, ht', c')"
      and rs: "rs = r # rs1"
    by (auto split: sum.splits prod.splits)
  from insert_inv [OF Cons.prems(1) i1] have inv1: "tableInv ht1" .
  show ?case
  proof (cases i)
    case 0
    with Cons.prems(4) rs have r by simp
    with i1 have "insert_key rnd k (ht, c) = Inr (True, ht1, c1)" by simp
    from insert_present_new [OF Cons.prems(1) this] have "present ht1 k" .
    from insertAll_present_keeps [OF inv1 i2 this] 0 show ?thesis by simp
  next
    case (Suc j)
    with Cons.prems(3,4) rs have "j < length ks" "rs1 ! j" by simp_all
    from Cons.IH [OF inv1 i2 this] Suc show ?thesis by simp
  qed
qed

text \<open>The keys of the buckets are keys that were inserted.\<close>

lemma insert_keys_subset:
  assumes inv: "tableInv ht"
      and ins: "insert_key rnd key (ht, c) = Inr (r, ht', c')"
      and j: "j < length (buckets ht)"
  shows "set (buckets ht' ! j) \<subseteq> insert key (set (buckets ht ! j))"
proof -
  let ?i = "nat (route ht key)"
  from insert_result [OF inv ins] obtain s' where
      h: "ht' = setSecond (addKey ht ?i key) ?i s'"
    by blast
  have bs: "buckets ht' = (buckets ht)[?i := buckets ht ! ?i @ [key]]"
    by (simp add: h setSecond_simps addKey_simps)
  from j show ?thesis by (cases "j = ?i") (auto simp: bs)
qed

lemma insertAll_keys_subset:
  "tableInv ht \<Longrightarrow> insertAll rnd ks (ht, c) = Inr (rs, ht', c') \<Longrightarrow> j < length (buckets ht)
   \<Longrightarrow> set (buckets ht' ! j) \<subseteq> set ks \<union> set (buckets ht ! j)"
proof (induction ks arbitrary: ht c rs)
  case Nil
  then show ?case by simp
next
  case (Cons k ks)
  from Cons.prems(2) obtain r ht1 c1 rs1 where
      i1: "insert_key rnd k (ht, c) = Inr (r, ht1, c1)"
      and i2: "insertAll rnd ks (ht1, c1) = Inr (rs1, ht', c')"
    by (auto split: sum.splits prod.splits)
  from insert_inv [OF Cons.prems(1) i1] have inv1: "tableInv ht1" .
  from inv1 Cons.prems(1) insert_result [OF Cons.prems(1) i1]
  have len: "length (buckets ht1) = length (buckets ht)"
    by (auto simp: setSecond_simps addKey_simps)
  from Cons.IH [OF inv1 i2] Cons.prems(3) len
  have "set (buckets ht' ! j) \<subseteq> set ks \<union> set (buckets ht1 ! j)" by simp
  with insert_keys_subset [OF Cons.prems(1) i1 Cons.prems(3)] show ?case by auto
qed

text \<open>A search for a non-negative key stays inside the vectors.\<close>

lemma route_range:
  assumes "tableInv ht" "0 < primarySize ht" "0 \<le> key"
  shows "0 \<le> route ht key \<and> nat (route ht key) < length (buckets ht)"
proof -
  from assms have "0 \<le> a1 ht * key + b1 ht" by (simp add: tableInv_def)
  then have "0 \<le> cmod (a1 ht * key + b1 ht) PRIME"
    using cmod_range [of "a1 ht * key + b1 ht" PRIME] by (simp add: PRIME_def)
  from cmod_range [OF this assms(2)] assms(1) show ?thesis
    by (simp add: route_def tableInv_def)
qed

lemma slotOf_range:
  assumes "0 \<le> a" "0 \<le> b" "0 \<le> key" "0 < ss"
  shows "0 \<le> slotOf a b PRIME ss key \<and> slotOf a b PRIME ss key < ss"
proof -
  from assms have "0 \<le> a * key + b" by simp
  then have "0 \<le> cmod (a * key + b) PRIME"
    using cmod_range [of "a * key + b" PRIME] by (simp add: PRIME_def)
  from cmod_range [OF this assms(4)] show ?thesis by (simp add: slotOf_def)
qed

lemma search_nonneg:
  assumes inv: "tableInv ht" and n: "0 < primarySize ht" and key: "0 \<le> key"
  shows "search key ht = Inr (present ht key)"
proof -
  let ?i = "nat (route ht key)"
  let ?s = "secondLevel ht ! ?i"
  from route_range [OF assms] have rt: "0 \<le> route ht key" "?i < length (buckets ht)" by simp_all
  with inv have b: "bucketInv (buckets ht ! ?i) ?s" and li: "?i < length (secondLevel ht)"
    by (simp_all add: tableInv_bucket tableInv_lengths)
  from inv n have p: "p1 ht \<noteq> 0" "primarySize ht \<noteq> 0" by (simp_all add: tableInv_def PRIME_neq0)
  show ?thesis
  proof (cases "size2 ?s = 0")
    case True
    with p rt li show ?thesis by (simp add: search_unfold present_def indexed_def)
  next
    case False
    with b have ne: "buckets ht ! ?i \<noteq> []" by (auto simp: bucketInv_def)
    with b have par: "p2 ?s = PRIME" "1 \<le> a2 ?s" "0 \<le> b2 ?s" "size2 ?s = int (length (table ?s))"
        and sub: "set (table ?s) \<subseteq> insert (- 1) (set (buckets ht ! ?i))"
      by (simp_all add: bucketInv_def)
    from False par have "0 < size2 ?s" by simp
    moreover from par have "0 \<le> a2 ?s" by simp
    ultimately have "0 \<le> slotOf (a2 ?s) (b2 ?s) PRIME (size2 ?s) key
        \<and> slotOf (a2 ?s) (b2 ?s) PRIME (size2 ?s) key < size2 ?s"
      using par(3) key by (intro slotOf_range)
    with par have sl: "0 \<le> slot ?s key" "nat (slot ?s key) < length (table ?s)"
      by (simp_all add: slot_slotOf nat_less_iff)
    then have "table ?s ! nat (slot ?s key) \<in> set (table ?s)" by simp
    with sub key have "table ?s ! nat (slot ?s key) = key \<longrightarrow> key \<in> set (buckets ht ! ?i)"
      by auto
    with False p rt li sl par show ?thesis
      by (auto simp: search_unfold present_def indexed_def PRIME_neq0)
  qed
qed

subsection \<open>Evaluation of the concrete runs\<close>

lemma runA_new: "PerfectHashing_new rndA 1 0 = Inr (htA0, 3)"
  by code_simp

lemma runA_inserts: "insertAll rndA [10, 20] (htA0, 3) = Inr ([True, True], htA2, 6)"
  by code_simp

lemma runZ_new: "PerfectHashing_new rndZero 5 0 = Inr (htZ0, 3)"
  by code_simp

lemma runZ_nil: "insertAll rndZero [] (htZ0, 3) = Inr ([], htZ0, 3)"
  by simp

lemma runZ_insert7: "insert_key rndZero 7 (htZ0, 3) = Inr (True, htZ1, 3)"
  by code_simp

lemma runA_insert10: "insert_key rndA 10 (htA0, 3) = Inr (True, 
   \<lparr>buckets = [[10]], secondLevel = [\<lparr>table = [10], size2 = 1, a2 = 1, b2 = 0, p2 = 2147483647\<rparr>],
            primarySize = 1, a1 = 1, b1 = 1, p1 = 2147483647\<rparr>, 3)"
  by code_simp

text \<open>The frame of one insert, for any table.\<close>

lemma insert_frame:
  assumes "insert_key rnd key (ht, c) = Inr (r, ht', c')"
  shows "0 \<le> route ht key \<and> nat (route ht key) < length (buckets ht)
       \<and> (\<exists>s. ht' = setSecond (addKey ht (nat (route ht key)) key) (nat (route ht key)) s)"
proof -
  from assms have rt: "0 \<le> route ht key" "nat (route ht key) < length (buckets ht)"
      and b: "buildSecondaryTable rnd (route ht key) (addKey ht (nat (route ht key)) key, c) = Inr (r, ht', c')"
    by (auto simp: insert_key_unfold split: if_splits)
  from build_frame [OF b] rt show ?thesis by simp
qed

lemma insert_params:
  assumes "insert_key rnd key (ht, c) = Inr (r, ht', c')"
  shows "primarySize ht' = primarySize ht \<and> a1 ht' = a1 ht \<and> b1 ht' = b1 ht \<and> p1 ht' = p1 ht"
  using insert_frame [OF assms] by (auto simp: setSecond_simps addKey_simps)

lemma insertAll_params:
  "insertAll rnd ks (ht, c) = Inr (rs, ht', c') \<Longrightarrow>
   primarySize ht' = primarySize ht \<and> a1 ht' = a1 ht \<and> b1 ht' = b1 ht \<and> p1 ht' = p1 ht"
proof (induction ks arbitrary: ht c rs)
  case Nil
  then show ?case by simp
next
  case (Cons k ks)
  from Cons.prems obtain r ht1 c1 rs1 where
      i1: "insert_key rnd k (ht, c) = Inr (r, ht1, c1)"
      and i2: "insertAll rnd ks (ht1, c1) = Inr (rs1, ht', c')"
    by (auto split: sum.splits prod.splits)
  from Cons.IH [OF i2] insert_params [OF i1] show ?case by simp
qed

lemma search_frame:
  "primarySize ht' = primarySize ht \<Longrightarrow> a1 ht' = a1 ht \<Longrightarrow> b1 ht' = b1 ht \<Longrightarrow> p1 ht' = p1 ht
   \<Longrightarrow> secondLevel ht' = secondLevel ht \<Longrightarrow> search x ht' = search x ht"
  by (simp add: search_unfold route_def cong: if_cong)

lemma buildLoop_fails:
  assumes ss: "ss \<noteq> 0"
      and coll: "\<forall>m < 100. \<not> distinct (map (slotOf (drawA rnd (c + 3 * m)) (drawB rnd (c + 3 * m)) PRIME ss) keys)"
  shows "buildLoop rnd keys ss i 0 (ht, c)
           = Inr (False, setSecond ht i ((secondLevel ht ! i)\<lparr>p2 := PRIME\<rparr>), c + 300)"
proof -
  have n: "nat (maxAttempts - 0) = 100" by (simp add: maxAttempts_def)
  from buildLoop_all_collide_aux [OF ss n coll] obtain ht' where
      b: "buildLoop rnd keys ss i 0 (ht, c) = Inr (False, ht', c + 3 * 100)" by blast
  have n': "nat (maxAttempts - 0) = Suc 99" by (simp add: maxAttempts_def)
  from buildLoop_False_aux [OF ss n' b] b show ?thesis by simp
qed

lemma square_fits:
  assumes "k \<le> 46340"
  shows "\<not> INT_MAX < int k * int k"
proof -
  from assms have "int k * int k \<le> 46340 * 46340" by (intro mult_mono) simp_all
  then show ?thesis by (simp add: INT_MAX_def)
qed

lemma build_fails:
  assumes idx: "0 \<le> bucketIdx" "nat bucketIdx < length (buckets ht)" "nat bucketIdx < length (secondLevel ht)"
      and len: "2 \<le> length (buckets ht ! nat bucketIdx)" "length (buckets ht ! nat bucketIdx) \<le> 46340"
      and coll: "\<forall>m < 100. \<not> distinct (map (slotOf (drawA rnd (c + 3 * m)) (drawB rnd (c + 3 * m)) PRIME
                   (int (length (buckets ht ! nat bucketIdx)) * int (length (buckets ht ! nat bucketIdx))))
                   (buckets ht ! nat bucketIdx))"
  shows "buildSecondaryTable rnd bucketIdx (ht, c)
           = Inr (False, setSecond ht (nat bucketIdx) ((secondLevel ht ! nat bucketIdx)\<lparr>p2 := PRIME\<rparr>), c + 300)"
proof -
  let ?keys = "buckets ht ! nat bucketIdx"
  let ?k = "int (length ?keys)"
  from len have k: "to_int (length ?keys) = ?k" by (intro to_int_small) simp
  from len have k2: "?k \<noteq> 0" "?k \<noteq> 1" by auto
  then have ss: "?k * ?k \<noteq> 0" by simp
  from idx k k2 square_fits [OF len(2)]
  have "buildSecondaryTable rnd bucketIdx (ht, c) = buildLoop rnd ?keys (?k * ?k) (nat bucketIdx) 0 (ht, c)"
    by (simp add: buildSecondaryTable_def Let_def del: buildLoop.simps)
  with buildLoop_fails [OF ss coll] show ?thesis by simp
qed

lemma setSecond_same: "setSecond ht i (secondLevel ht ! i) = ht"
  by (simp add: setSecond_def)

lemma insert_fails:
  assumes inv: "tableInv ht"
      and rt: "0 \<le> route ht key" "nat (route ht key) < length (buckets ht)"
      and ne: "buckets ht ! nat (route ht key) \<noteq> []"
      and len: "length (buckets ht ! nat (route ht key)) < 46340"
      and coll: "\<forall>m < 100. \<not> distinct (map (slotOf (drawA rnd (c + 3 * m)) (drawB rnd (c + 3 * m)) PRIME
                   (int (length (buckets ht ! nat (route ht key) @ [key]))
                      * int (length (buckets ht ! nat (route ht key) @ [key]))))
                   (buckets ht ! nat (route ht key) @ [key]))"
  shows "insert_key rnd key (ht, c) = Inr (False, addKey ht (nat (route ht key)) key, c + 300)"
proof -
  let ?i = "nat (route ht key)"
  let ?ht0 = "addKey ht ?i key"
  from tableInv_lengths [OF inv] rt have li: "?i < length (secondLevel ht)" by simp
  from tableInv_params [OF inv] have p: "p1 ht \<noteq> 0" by (simp add: PRIME_neq0)
  from tableInv_sizes [OF inv] rt have n: "primarySize ht \<noteq> 0" by auto
  have keys': "buckets ?ht0 ! ?i = buckets ht ! ?i @ [key]"
    using rt by (simp add: addKey_simps)
  from ne have "2 \<le> length (buckets ht ! ?i @ [key])" by (cases "buckets ht ! ?i") simp_all
  with len rt li coll
  have "buildSecondaryTable rnd (route ht key) (?ht0, c)
           = Inr (False, setSecond ?ht0 ?i ((secondLevel ?ht0 ! ?i)\<lparr>p2 := PRIME\<rparr>), c + 300)"
    by (intro build_fails) (simp_all add: keys', simp_all add: addKey_simps)
  moreover from tableInv_bucket [OF inv rt(2)] ne have "p2 (secondLevel ht ! ?i) = PRIME"
    by (simp add: bucketInv_def)
  then have "setSecond ?ht0 ?i ((secondLevel ?ht0 ! ?i)\<lparr>p2 := PRIME\<rparr>) = ?ht0"
    using setSecond_same [of ?ht0 ?i] by (simp add: addKey_simps same_p2)
  ultimately show ?thesis using rt p n by (simp add: insert_key_unfold)
qed

lemma dup_collides: "key \<in> set keys \<Longrightarrow> \<not> distinct (map f (keys @ [key]))"
  by auto

lemma insert_dup:
  assumes inv: "tableInv ht"
      and i: "i < length (buckets ht)" and key: "key \<in> set (buckets ht ! i)"
      and len: "length (buckets ht ! i) < 46340"
  shows "insert_key rnd key (ht, c) = Inr (False, addKey ht i key, c + 300)"
proof -
  from tableInv_route [OF inv i key] have r: "route ht key = int i" .
  then have rt: "0 \<le> route ht key" "nat (route ht key) < length (buckets ht)" "nat (route ht key) = i"
    using i by simp_all
  from key have ne: "buckets ht ! nat (route ht key) \<noteq> []" by (auto simp: rt(3))
  from key have "\<not> distinct (map f (buckets ht ! nat (route ht key) @ [key]))" for f
    unfolding rt(3) by (rule dup_collides)
  then have coll: "\<forall>m < 100. \<not> distinct (map (slotOf (drawA rnd (c + 3 * m)) (drawB rnd (c + 3 * m)) PRIME
                   (int (length (buckets ht ! nat (route ht key) @ [key]))
                      * int (length (buckets ht ! nat (route ht key) @ [key]))))
                   (buckets ht ! nat (route ht key) @ [key]))"
    by blast
  from len have len': "length (buckets ht ! nat (route ht key)) < 46340" by (simp add: rt(3))
  from insert_fails [OF inv rt(1,2) ne len' coll] show ?thesis by (simp add: rt(3))
qed

lemma runZ_inserts7: "insertAll rndZero [7] (htZ0, 3) = Inr ([True], htZ1, 3)"
  by (simp add: runZ_insert7)

lemma runZ_inv1: "tableInv htZ1"
  using insertAll_inv [OF new_inv [OF runZ_new] runZ_inserts7] .

lemma runZ_dup: "insert_key rndZero 7 (htZ1, 3) = Inr (False, htZ2, 303)"
proof -
  have "insert_key rndZero 7 (htZ1, 3) = Inr (False, addKey htZ1 2 7, 3 + 300)"
    by (rule insert_dup [OF runZ_inv1]) (simp_all add: htZ1_def)
  moreover have "addKey htZ1 2 7 = htZ2" by (simp add: addKey_def htZ1_def htZ2_def)
  ultimately show ?thesis by simp
qed

lemma runA_inserts10: "insertAll rndA [10] (htA0, 3) = Inr ([True], htA1, 3)"
  by code_simp

lemma runA_insert20: "insert_key rndA 20 (htA1, 3) = Inr (True, htA2, 6)"
  by code_simp

lemma insert_built:
  assumes inv: "tableInv ht"
      and ins: "insert_key rnd key (ht, c) = Inr (True, ht', c')"
      and len: "2 \<le> length (buckets ht ! nat (route ht key) @ [key])"
  shows "\<exists>a b tbl. 1 \<le> a \<and> 0 \<le> b
           \<and> buckets ht' ! nat (route ht key) = buckets ht ! nat (route ht key) @ [key]
           \<and> secondLevel ht' ! nat (route ht key)
               = \<lparr>table = tbl,
                  size2 = int (length (buckets ht ! nat (route ht key) @ [key]))
                           * int (length (buckets ht ! nat (route ht key) @ [key])),
                  a2 = a, b2 = b, p2 = PRIME\<rparr>
           \<and> length tbl = length (buckets ht ! nat (route ht key) @ [key])
                           * length (buckets ht ! nat (route ht key) @ [key])
           \<and> distinct (map (slotOf a b PRIME
                  (int (length (buckets ht ! nat (route ht key) @ [key]))
                     * int (length (buckets ht ! nat (route ht key) @ [key]))))
                (buckets ht ! nat (route ht key) @ [key]))"
proof -
  let ?i = "nat (route ht key)"
  let ?keys = "buckets ht ! ?i"
  let ?ks = "?keys @ [key]"
  let ?ht0 = "addKey ht ?i key"
  from ins have rt: "0 \<le> route ht key" "?i < length (buckets ht)"
      and b: "buildSecondaryTable rnd (route ht key) (?ht0, c) = Inr (True, ht', c')"
    by (auto simp: insert_key_unfold split: if_splits)
  from tableInv_lengths [OF inv] rt have li: "?i < length (secondLevel ht)" by simp
  have keys': "buckets ?ht0 ! ?i = ?ks"
    using rt by (simp add: addKey_simps)
  from tableInv_bucket [OF inv rt(2)] have "length (buckets ?ht0 ! ?i) \<le> 46341"
    by (simp add: keys' bucketInv_def)
  from build_result [OF b this] len obtain a b tbl where
      ab: "1 \<le> a" "0 \<le> b"
      and d: "distinct (map (slotOf a b PRIME (int (length ?ks) * int (length ?ks))) ?ks)"
      and pk: "placeKeys ?ks a b (int (length ?ks) * int (length ?ks))
                  (replicate (length ?ks * length ?ks) (- 1)) = Inr tbl"
      and h: "ht' = setSecond ?ht0 ?i
                \<lparr>table = tbl, size2 = int (length ?ks) * int (length ?ks), a2 = a, b2 = b, p2 = PRIME\<rparr>"
    unfolding keys' by auto
  from placeKeys_length [OF pk] have "length tbl = length ?ks * length ?ks" by simp
  with ab d rt li show ?thesis
    by (intro exI [of _ a] exI [of _ b] exI [of _ tbl]) (simp add: h setSecond_simps addKey_simps)
qed

lemma runB_new: "PerfectHashing_new rndB 1 0 = Inr (htB0, 3)"
  by code_simp

lemma runB_inserts10: "insertAll rndB [10] (htB0, 3) = Inr ([True], htB1, 3)"
  by code_simp

lemma runB_inv1: "tableInv htB1"
  using insertAll_inv [OF new_inv [OF runB_new] runB_inserts10] .

lemma runB_draws:
  assumes "m < 100"
  shows "drawA rndB (3 + 3 * m) = 2 \<and> drawB rndB (3 + 3 * m) = 1"
  using assms by (simp add: drawA_def drawB_def rndB_def cmod_def PRIME_def)

lemma runB_insert20: "insert_key rndB 20 (htB1, 3) = Inr (False, htB2, 303)"
proof -
  have r: "route htB1 20 = 0" by (simp add: route_def htB1_def cmod_def)
  have b: "buckets htB1 ! 0 = [10]" by (simp add: htB1_def)
  have "\<not> distinct (map (slotOf 2 1 PRIME 4) [10, 20])"
    by (simp add: slotOf_def cmod_def PRIME_def)
  then have coll: "\<forall>m < 100. \<not> distinct (map (slotOf (drawA rndB (3 + 3 * m)) (drawB rndB (3 + 3 * m)) PRIME
                   (int (length (buckets htB1 ! nat (route htB1 20) @ [20]))
                      * int (length (buckets htB1 ! nat (route htB1 20) @ [20]))))
                   (buckets htB1 ! nat (route htB1 20) @ [20]))"
    by (simp add: r b runB_draws)
  have "insert_key rndB 20 (htB1, 3) = Inr (False, addKey htB1 (nat (route htB1 20)) 20, 3 + 300)"
    by (rule insert_fails [OF runB_inv1 _ _ _ _ coll]) (simp_all add: r b, simp add: htB1_def)
  moreover have "addKey htB1 (nat (route htB1 20)) 20 = htB2"
    unfolding r by (simp add: addKey_def htB1_def htB2_def)
  ultimately show ?thesis by simp
qed

lemma runB_insert30: "insert_key rndB 30 (htB2, 303) = Inr (True, htB3, 306)"
  by code_simp

lemma runB_nil: "insertAll rndB [] (htB2, 303) = Inr ([], htB2, 303)"
  by simp

text \<open>Keys stay in their bucket.\<close>

lemma insert_keys_mono:
  assumes "insert_key rnd key (ht, c) = Inr (r, ht', c')" and "j < length (buckets ht)"
  shows "set (buckets ht ! j) \<subseteq> set (buckets ht' ! j) \<and> length (buckets ht') = length (buckets ht)"
proof -
  from insert_frame [OF assms(1)] obtain s where
      h: "ht' = setSecond (addKey ht (nat (route ht key)) key) (nat (route ht key)) s"
    by blast
  from assms(2) show ?thesis
    by (cases "j = nat (route ht key)") (auto simp: h setSecond_simps addKey_simps)
qed

lemma insertAll_keys_mono:
  "insertAll rnd ks (ht, c) = Inr (rs, ht', c') \<Longrightarrow> j < length (buckets ht) \<Longrightarrow>
   set (buckets ht ! j) \<subseteq> set (buckets ht' ! j) \<and> length (buckets ht') = length (buckets ht)"
proof (induction ks arbitrary: ht c rs)
  case Nil
  then show ?case by simp
next
  case (Cons k ks)
  from Cons.prems(1) obtain r ht1 c1 rs1 where
      i1: "insert_key rnd k (ht, c) = Inr (r, ht1, c1)"
      and i2: "insertAll rnd ks (ht1, c1) = Inr (rs1, ht', c')"
    by (auto split: sum.splits prod.splits)
  from insert_keys_mono [OF i1 Cons.prems(2)]
  have m1: "set (buckets ht ! j) \<subseteq> set (buckets ht1 ! j)" "length (buckets ht1) = length (buckets ht)"
    by simp_all
  with Cons.prems(2) have "j < length (buckets ht1)" by simp
  from Cons.IH [OF i2 this] m1 show ?case by auto
qed

text \<open>With non-negative keys the placement stays inside the slot array.\<close>

lemma placeKeys_nonneg:
  assumes "0 \<le> a" "0 \<le> b" "0 < ss"
  shows "\<forall>x \<in> set keys. 0 \<le> x \<Longrightarrow> length tbl = nat ss \<Longrightarrow> \<exists>tbl'. placeKeys keys a b ss tbl = Inr tbl'"
proof (induction keys arbitrary: tbl)
  case Nil
  then show ?case by simp
next
  case (Cons x keys)
  from Cons.prems(1) have x: "0 \<le> x" and rest: "\<forall>x \<in> set keys. 0 \<le> x" by simp_all
  from slotOf_range [OF assms(1,2) x assms(3)]
  have h: "0 \<le> slotOf a b PRIME ss x" "nat (slotOf a b PRIME ss x) < length tbl"
    using Cons.prems(2) by (simp_all add: nat_less_iff)
  have "length (tbl[nat (slotOf a b PRIME ss x) := x]) = nat ss" using Cons.prems(2) by simp
  from Cons.IH [OF rest this] obtain tbl' where
      "placeKeys keys a b ss (tbl[nat (slotOf a b PRIME ss x) := x]) = Inr tbl'" ..
  with h assms(3) show ?case
    by (simp add: hashFunction_def PRIME_neq0 Let_def slotOf_def)
qed

lemma buildLoop_nonneg:
  assumes ss: "0 < ss" and keys: "\<forall>x \<in> set keys. 0 \<le> x"
  shows "nat (maxAttempts - att) = n \<Longrightarrow> \<exists>r ht' c'. buildLoop rnd keys ss i att (ht, c) = Inr (r, ht', c')"
proof (induction n arbitrary: att ht c)
  case 0
  then have "\<not> att < maxAttempts" by simp
  moreover from ss have "ss \<noteq> 0" by simp
  ultimately show ?case by (subst buildLoop_unfold) auto
next
  case (Suc n)
  let ?a = "drawA rnd c" and ?b = "drawB rnd c"
  from ss have ss0: "ss \<noteq> 0" by simp
  from Suc.prems have att: "att < maxAttempts" by simp
  show ?case
  proof (cases "distinct (map (slotOf ?a ?b PRIME ss) keys)")
    case True
    from drawA_range [of rnd c] drawB_range [of rnd c] have ab: "0 \<le> ?a" "0 \<le> ?b" by simp_all
    from placeKeys_nonneg [OF ab ss keys, of "replicate (nat ss) (- 1)"] obtain tbl where
        "placeKeys keys ?a ?b ss (replicate (nat ss) (- 1)) = Inr tbl" by auto
    with att True ss show ?thesis by (subst buildLoop_unfold [OF ss0]) auto
  next
    case False
    from Suc.prems have "nat (maxAttempts - (att + 1)) = n" by simp
    from Suc.IH [OF this] False att show ?thesis
      by (subst buildLoop_unfold [OF ss0]) auto
  qed
qed

lemma build_nonneg:
  assumes idx: "0 \<le> bucketIdx" "nat bucketIdx < length (buckets ht)" "nat bucketIdx < length (secondLevel ht)"
      and keys: "\<forall>x \<in> set (buckets ht ! nat bucketIdx). 0 \<le> x"
  shows "buildSecondaryTable rnd bucketIdx (ht, c) \<noteq> Inl OutOfBounds"
proof -
  let ?keys = "buckets ht ! nat bucketIdx"
  let ?k = "to_int (length ?keys)"
  consider (zero) "?k = 0" | (one) "?k = 1" | (over) "?k \<noteq> 0" "?k \<noteq> 1" "INT_MAX < ?k * ?k"
    | (loop) "?k \<noteq> 0" "?k \<noteq> 1" "\<not> INT_MAX < ?k * ?k" by blast
  then show ?thesis
  proof cases
    case zero
    with idx show ?thesis by (simp add: buildSecondaryTable_def Let_def)
  next
    case one
    with idx show ?thesis by (simp add: buildSecondaryTable_def Let_def)
  next
    case over
    with idx show ?thesis by (simp add: buildSecondaryTable_def Let_def)
  next
    case loop
    from loop(1) have "0 < ?k * ?k" by (simp add: zero_less_mult_iff) arith
    from buildLoop_nonneg [OF this keys refl, of rnd "nat bucketIdx" 0 ht c] obtain r ht' c' where
        "buildLoop rnd ?keys (?k * ?k) (nat bucketIdx) 0 (ht, c) = Inr (r, ht', c')" by blast
    with idx loop show ?thesis by (simp add: buildSecondaryTable_def Let_def del: buildLoop.simps)
  qed
qed

lemma insert_nonneg:
  assumes inv: "tableInv ht" and n: "0 < primarySize ht" and key: "0 \<le> key"
      and keys: "\<forall>x \<in> set (buckets ht ! nat (route ht key)). 0 \<le> x"
  shows "insert_key rnd key (ht, c) \<noteq> Inl OutOfBounds"
proof -
  let ?i = "nat (route ht key)"
  from route_range [OF inv n key] have rt: "0 \<le> route ht key" "?i < length (buckets ht)" by simp_all
  from tableInv_lengths [OF inv] rt have li: "?i < length (secondLevel ht)" by simp
  from tableInv_params [OF inv] have p: "p1 ht \<noteq> 0" by (simp add: PRIME_neq0)
  from keys key rt have "\<forall>x \<in> set (buckets (addKey ht ?i key) ! ?i). 0 \<le> x"
    by (simp add: addKey_simps)
  with rt li have "buildSecondaryTable rnd (route ht key) (addKey ht ?i key, c) \<noteq> Inl OutOfBounds"
    by (intro build_nonneg) (simp_all add: addKey_simps)
  with rt p n show ?thesis by (simp add: insert_key_unfold)
qed

lemma runD_new: "PerfectHashing_new rndZero 1 0 = Inr (htD0, 3)"
  by code_simp









lemma replicate_not_distinct: "2 \<le> n \<Longrightarrow> \<not> distinct (replicate n x)"
  by (cases n) (auto simp: set_replicate_conv_if)

lemma build_calls:
  assumes "buildSecondaryTable rnd bucketIdx (ht, c) = Inr (r, ht', c')"
  shows "\<exists>m \<le> 100. c' = c + 3 * m \<and> (\<not> r \<longrightarrow> m = 100)"
proof -
  let ?i = "nat bucketIdx" and ?k = "to_int (length (buckets ht ! nat bucketIdx))"
  consider (zero) "?k = 0" | (one) "?k = 1" | (many) "?k \<noteq> 0" "?k \<noteq> 1" by blast
  then show ?thesis
  proof cases
    case zero
    with assms have "r \<and> c' = c"
      by (auto simp: buildSecondaryTable_def Let_def split: if_splits)
    then show ?thesis by (intro exI [of _ 0]) simp
  next
    case one
    with assms have "r \<and> c' = c"
      by (auto simp: buildSecondaryTable_def Let_def split: if_splits)
    then show ?thesis by (intro exI [of _ 0]) simp
  next
    case many
    with assms have "buildLoop rnd (buckets ht ! ?i) (?k * ?k) ?i 0 (ht, c) = Inr (r, ht', c')"
      by (auto simp: buildSecondaryTable_def Let_def split: if_splits)
    moreover have "nat (maxAttempts - 0) = 100" by (simp add: maxAttempts_def)
    ultimately show ?thesis
      using buildLoop_calls_aux [OF to_int_sq_nonzero [OF many(1)]] by blast
  qed
qed

lemma build_small:
  assumes idx: "0 \<le> bucketIdx" "nat bucketIdx < length (buckets ht)" "nat bucketIdx < length (secondLevel ht)"
      and len: "length (buckets ht ! nat bucketIdx) \<le> 1"
  shows "\<exists>ht'. buildSecondaryTable rnd bucketIdx (ht, c) = Inr (True, ht', c)"
proof -
  from len have "to_int (length (buckets ht ! nat bucketIdx)) = int (length (buckets ht ! nat bucketIdx))"
    by (intro to_int_small) simp
  moreover from len have "length (buckets ht ! nat bucketIdx) = 0 \<or> length (buckets ht ! nat bucketIdx) = 1"
    by linarith
  ultimately show ?thesis using idx
    by (auto simp: buildSecondaryTable_def Let_def)
qed

subsection \<open>What insert and the build do inside their limits\<close>

text \<open>
  A key that is already in the key list of bucket \<open>i\<close>, a list of fewer than 46340
  keys: the insert appends it, every pair of parameters fails the collision check, and
  the insert returns false after 100 attempts.
\<close>

lemma duplicate_insert_rejected:
  assumes "PerfectHashing_new rnd n c0 = Inr (ht0, c1)"
      and "insertAll rnd ks (ht0, c1) = Inr (rs, ht, c)"
      and "i < length (buckets ht)" and "key \<in> set (buckets ht ! i)"
      and "length (buckets ht ! i) < 46340"
  shows "route ht key = int i
       \<and> insert_key rnd key (ht, c)
           = Inr (False, ht\<lparr>buckets := (buckets ht)[i := buckets ht ! i @ [key]]\<rparr>, c + 300)
       \<and> (\<forall>a b. isCollisionFree (buckets ht ! i @ [key]) a b PRIME
                  (int (length (buckets ht ! i @ [key])) * int (length (buckets ht ! i @ [key])))
                = Inr False)"
proof -
  from new_inv [OF assms(1)] have inv0: "tableInv ht0" .
  from insertAll_inv [OF inv0 assms(2)] have inv: "tableInv ht" .
  have ss: "int (length (buckets ht ! i @ [key])) * int (length (buckets ht ! i @ [key])) \<noteq> 0"
    by simp
  have "isCollisionFree (buckets ht ! i @ [key]) a b PRIME
                  (int (length (buckets ht ! i @ [key])) * int (length (buckets ht ! i @ [key])))
                = Inr False" for a b
    unfolding isCollisionFree_iff [OF PRIME_neq0 ss] using dup_collides [OF assms(4)] by simp
  with tableInv_route [OF inv assms(3,4)] insert_dup [OF inv assms(3,4,5)]
  show ?thesis by (simp add: addKey_def)
qed

text \<open>
  The build of the key list of a bucket: a list of at most one key returns true at once
  without a call of \<open>rand()\<close>; a build that returns has made at most 100 attempts, and
  exactly 100 when it returns false; for 2 to 46340 keys, when the collision check
  rejects the parameters of each of the 100 attempts, the build returns false; and
  insert returns what the build returns.
\<close>

lemma build_attempts_bounded:
  assumes "0 \<le> bucketIdx" and "nat bucketIdx < length (buckets ht)"
      and "nat bucketIdx < length (secondLevel ht)"
      and "keys = buckets ht ! nat bucketIdx"
  shows "(length keys \<le> 1 \<longrightarrow> (\<exists>ht'. buildSecondaryTable rnd bucketIdx (ht, c) = Inr (True, ht', c)))
       \<and> (\<forall>r ht' c'. buildSecondaryTable rnd bucketIdx (ht, c) = Inr (r, ht', c')
             \<longrightarrow> (\<exists>m \<le> 100. c' = c + 3 * m \<and> (\<not> r \<longrightarrow> m = 100)))
       \<and> (2 \<le> length keys \<and> length keys \<le> 46340
            \<and> (\<forall>m < 100. isCollisionFree keys (drawA rnd (c + 3 * m)) (drawB rnd (c + 3 * m)) PRIME
                             (int (length keys) * int (length keys)) = Inr False)
           \<longrightarrow> buildSecondaryTable rnd bucketIdx (ht, c)
                 = Inr (False,
                        setSecond ht (nat bucketIdx) ((secondLevel ht ! nat bucketIdx)\<lparr>p2 := PRIME\<rparr>),
                        c + 300))
       \<and> (\<forall>key. p1 ht \<noteq> 0 \<and> primarySize ht \<noteq> 0 \<and> 0 \<le> route ht key
                  \<and> nat (route ht key) < length (buckets ht)
             \<longrightarrow> insert_key rnd key (ht, c)
                   = buildSecondaryTable rnd (route ht key) (addKey ht (nat (route ht key)) key, c))"
proof (intro conjI impI allI)
  assume "length keys \<le> 1"
  with assms show "\<exists>ht'. buildSecondaryTable rnd bucketIdx (ht, c) = Inr (True, ht', c)"
    by (intro build_small) simp_all
next
  fix r ht' c'
  assume "buildSecondaryTable rnd bucketIdx (ht, c) = Inr (r, ht', c')"
  then show "\<exists>m \<le> 100. c' = c + 3 * m \<and> (\<not> r \<longrightarrow> m = 100)" by (rule build_calls)
next
  assume h: "2 \<le> length keys \<and> length keys \<le> 46340
            \<and> (\<forall>m < 100. isCollisionFree keys (drawA rnd (c + 3 * m)) (drawB rnd (c + 3 * m)) PRIME
                             (int (length keys) * int (length keys)) = Inr False)"
  then have "int (length keys) * int (length keys) \<noteq> 0" by auto
  from h have "\<forall>m < 100. \<not> distinct (map (slotOf (drawA rnd (c + 3 * m)) (drawB rnd (c + 3 * m)) PRIME
                   (int (length keys) * int (length keys))) keys)"
    unfolding isCollisionFree_iff [OF PRIME_neq0 \<open>int (length keys) * int (length keys) \<noteq> 0\<close>] by simp
  with h assms show "buildSecondaryTable rnd bucketIdx (ht, c)
                 = Inr (False,
                        setSecond ht (nat bucketIdx) ((secondLevel ht ! nat bucketIdx)\<lparr>p2 := PRIME\<rparr>),
                        c + 300)"
    by (intro build_fails) simp_all
next
  fix key
  assume "p1 ht \<noteq> 0 \<and> primarySize ht \<noteq> 0 \<and> 0 \<le> route ht key
                  \<and> nat (route ht key) < length (buckets ht)"
  then show "insert_key rnd key (ht, c)
                   = buildSecondaryTable rnd (route ht key) (addKey ht (nat (route ht key)) key, c)"
    by (simp add: insert_key_unfold)
qed

text \<open>
  An insert that returns has appended the key to the bucket it is routed to and has
  left every other bucket and secondary table as they were; the bucket count and the
  level-1 parameters are the same after it and after any further inserts.
\<close>

lemma insert_frame_lifetime:
  assumes "insert_key rnd key (ht, c) = Inr (r, ht1, c1)"
      and "insertAll rnd ks (ht1, c1) = Inr (rs, ht2, c2)"
  shows "0 \<le> route ht key \<and> nat (route ht key) < length (buckets ht)
       \<and> length (buckets ht1) = length (buckets ht)
       \<and> length (secondLevel ht1) = length (secondLevel ht)
       \<and> buckets ht1 ! nat (route ht key) = buckets ht ! nat (route ht key) @ [key]
       \<and> (\<forall>j. j \<noteq> nat (route ht key) \<longrightarrow>
             buckets ht1 ! j = buckets ht ! j \<and> secondLevel ht1 ! j = secondLevel ht ! j)
       \<and> primarySize ht1 = primarySize ht \<and> a1 ht1 = a1 ht \<and> b1 ht1 = b1 ht \<and> p1 ht1 = p1 ht
       \<and> primarySize ht2 = primarySize ht \<and> a1 ht2 = a1 ht \<and> b1 ht2 = b1 ht \<and> p1 ht2 = p1 ht
       \<and> (\<forall>x. route ht2 x = route ht x)"
proof -
  from insert_frame [OF assms(1)] obtain s where
      rt: "0 \<le> route ht key" "nat (route ht key) < length (buckets ht)"
      and h: "ht1 = setSecond (addKey ht (nat (route ht key)) key) (nat (route ht key)) s"
    by blast
  from insert_params [OF assms(1)] insertAll_params [OF assms(2)]
  have p: "primarySize ht2 = primarySize ht \<and> a1 ht2 = a1 ht \<and> b1 ht2 = b1 ht \<and> p1 ht2 = p1 ht"
    by simp
  then have "route ht2 = route ht" by (intro route_frame) simp_all
  with p rt show ?thesis
    by (simp add: h setSecond_simps addKey_simps)
qed

subsection \<open>Runs that leave defined behaviour\<close>

lemma runN_first: "insert_key rndZero (- 3) (htD0, 3) = Inr (True, htN1, 3)"
  by code_simp

lemma runN_second: "insert_key rndZero (- 5) (htN1, 3) = Inl OutOfBounds"
  by code_simp



lemma runZ_negative: "insert_key rndZero (- 7) (htZ0, 3) = Inl OutOfBounds"
  by code_simp

section \<open>The claims\<close>

subsection \<open>C1\<close>

text \<open>
  C1 (no false positives), for non-negative keys. In a table constructed with at
  least one bucket and reached by inserts that returned, the search for a non-negative
  key that was never passed to insert returns false. The empty marker of a slot is the
  value -1, so the statement does not extend to the key -1: the counterexample below
  finds it in a table that holds 10 and 20 only.
\<close>

theorem C1_no_false_positives:
  assumes "PerfectHashing_new rnd n c0 = Inr (ht0, c1)"
      and "insertAll rnd ks (ht0, c1) = Inr (rs, ht, c)"
      and "0 < n" and "0 \<le> key" and "key \<notin> set ks"
  shows "search key ht = Inr False"
proof -
  from new_inv [OF assms(1)] have inv0: "tableInv ht0" .
  from insertAll_inv [OF inv0 assms(2)] have inv: "tableInv ht" .
  from new_result [OF assms(1)] have n0: "primarySize ht0 = n"
      and b0: "buckets ht0 = replicate (nat n) []" by simp_all
  from insertAll_params [OF assms(2)] n0 have n: "primarySize ht = n" by simp
  with assms(3) have pos: "0 < primarySize ht" by simp
  have "\<not> present ht key"
  proof
    assume p: "present ht key"
    let ?i = "nat (route ht key)"
    from p have i: "?i < length (buckets ht)" and k: "key \<in> set (buckets ht ! ?i)"
      by (simp_all add: present_def)
    from tableInv_sizes [OF inv] tableInv_sizes [OF inv0] n n0 i
    have i0: "?i < length (buckets ht0)" by simp
    from insertAll_keys_subset [OF inv0 assms(2) i0] k
    have "key \<in> set ks \<union> set (buckets ht0 ! ?i)" by blast
    moreover from i0 have "buckets ht0 ! ?i = []" by (simp add: b0)
    ultimately show False using assms(5) by simp
  qed
  with search_nonneg [OF inv pos assms(4)] show ?thesis by simp
qed

theorem C1_no_false_positives_witness:
  "PerfectHashing_new rndA 1 0 = Inr (htA0, 3)
   \<and> insertAll rndA [10, 20] (htA0, 3) = Inr ([True, True], htA2, 6)
   \<and> (0::int) < 1 \<and> (0::int) \<le> 5 \<and> 5 \<notin> set [10, 20 :: int]
   \<and> search 5 htA2 = Inr False"
  using C1_no_false_positives [OF runA_new runA_inserts, of 5] runA_new runA_inserts by simp

theorem C1_no_false_positives_counterexample:
  "PerfectHashing_new rndA 1 0 = Inr (htA0, 3)
   \<and> insertAll rndA [10, 20] (htA0, 3) = Inr ([True, True], htA2, 6)
   \<and> - 1 \<notin> set [10, 20 :: int]
   \<and> search (- 1) htA2 = Inr True"
proof -
  have "search (- 1) htA2 = Inr True" by code_simp
  with runA_new runA_inserts show ?thesis by simp
qed

subsection \<open>C2\<close>

text \<open>
  C2 (no false negatives). In a run that constructs a table and inserts the keys \<open>ks\<close>
  one after the other, every insert returning normally, a key whose insert returned
  true is found by \<open>search\<close> at the end of the run, whatever the inserts after it
  returned.
\<close>

theorem C2_no_false_negatives:
  assumes "PerfectHashing_new rnd n c0 = Inr (ht0, c1)"
      and "insertAll rnd ks (ht0, c1) = Inr (rs, ht, c)"
      and "i < length ks" and "rs ! i"
  shows "search (ks ! i) ht = Inr True"
proof -
  from new_inv [OF assms(1)] have inv0: "tableInv ht0" .
  from insertAll_inv [OF inv0 assms(2)] have inv: "tableInv ht" .
  from insertAll_found [OF inv0 assms(2,3,4)] have "present ht (ks ! i)" .
  from present_search [OF inv this] show ?thesis .
qed

theorem C2_no_false_negatives_witness:
  "PerfectHashing_new rndA 1 0 = Inr (htA0, 3)
   \<and> insertAll rndA [10, 20] (htA0, 3) = Inr ([True, True], htA2, 6)
   \<and> (0::nat) < length [10, 20 :: int] \<and> [True, True] ! 0
   \<and> search ([10, 20] ! 0) htA2 = Inr True"
  using C2_no_false_negatives [OF runA_new runA_inserts, of 0] runA_new runA_inserts by simp

subsection \<open>C3\<close>

text \<open>
  C3 (collision-free build). When an insert into a table reached by a construction
  and inserts returns true and the key list of its bucket then has \<open>k \<ge> 2\<close> keys, the
  secondary table of the bucket has size \<open>k * k\<close>, a slot array of that length and the
  shared prime, and under its stored parameters the slots of the keys of the list are
  pairwise distinct.
\<close>

theorem C3_collision_free_build:
  assumes "PerfectHashing_new rnd n c0 = Inr (ht0, c1)"
      and "insertAll rnd ks (ht0, c1) = Inr (rs, ht, c)"
      and "insert_key rnd key (ht, c) = Inr (True, ht', c')"
      and "k = length (buckets ht' ! nat (route ht key))" and "2 \<le> k"
  shows "size2 (secondLevel ht' ! nat (route ht key)) = int k * int k
       \<and> length (table (secondLevel ht' ! nat (route ht key))) = k * k
       \<and> p2 (secondLevel ht' ! nat (route ht key)) = PRIME
       \<and> distinct (map (slot (secondLevel ht' ! nat (route ht key))) (buckets ht' ! nat (route ht key)))
       \<and> (\<forall>x \<in> set (buckets ht' ! nat (route ht key)). \<forall>y \<in> set (buckets ht' ! nat (route ht key)).
             x \<noteq> y \<longrightarrow> slot (secondLevel ht' ! nat (route ht key)) x
                          \<noteq> slot (secondLevel ht' ! nat (route ht key)) y)"
proof -
  let ?i = "nat (route ht key)"
  let ?ks = "buckets ht ! ?i @ [key]"
  from new_inv [OF assms(1)] have inv0: "tableInv ht0" .
  from insertAll_inv [OF inv0 assms(2)] have inv: "tableInv ht" .
  from insert_frame [OF assms(3)] have bk: "buckets ht' ! ?i = ?ks"
    by (auto simp: setSecond_simps addKey_simps)
  with assms(4,5) have len: "2 \<le> length ?ks" by simp
  from insert_built [OF inv assms(3) len] obtain a b tbl where
      s: "secondLevel ht' ! ?i
               = \<lparr>table = tbl, size2 = int (length ?ks) * int (length ?ks), a2 = a, b2 = b, p2 = PRIME\<rparr>"
      and l: "length tbl = length ?ks * length ?ks"
      and d: "distinct (map (slotOf a b PRIME (int (length ?ks) * int (length ?ks))) ?ks)"
    by blast
  have sl: "slot (secondLevel ht' ! ?i) = slotOf a b PRIME (int (length ?ks) * int (length ?ks))"
    by (rule ext) (simp add: slot_slotOf s)
  from d have dm: "distinct (map (slot (secondLevel ht' ! ?i)) (buckets ht' ! ?i))"
    by (simp only: sl bk)
  then have "inj_on (slot (secondLevel ht' ! ?i)) (set (buckets ht' ! ?i))"
    by (simp add: distinct_map)
  then have "\<forall>x \<in> set (buckets ht' ! ?i). \<forall>y \<in> set (buckets ht' ! ?i).
             x \<noteq> y \<longrightarrow> slot (secondLevel ht' ! ?i) x \<noteq> slot (secondLevel ht' ! ?i) y"
    by (auto dest: inj_onD)
  with dm show ?thesis
    using s l bk assms(4) by simp
qed

theorem C3_collision_free_build_witness:
  "PerfectHashing_new rndA 1 0 = Inr (htA0, 3)
   \<and> insertAll rndA [10] (htA0, 3) = Inr ([True], htA1, 3)
   \<and> insert_key rndA 20 (htA1, 3) = Inr (True, htA2, 6)
   \<and> route htA1 20 = 0 \<and> length (buckets htA2 ! 0) = 2
   \<and> size2 (secondLevel htA2 ! 0) = 4 \<and> length (table (secondLevel htA2 ! 0)) = 4
   \<and> slot (secondLevel htA2 ! 0) 10 \<noteq> slot (secondLevel htA2 ! 0) 20"
proof -
  have r: "route htA1 20 = 0" by (simp add: route_def htA1_def cmod_def)
  have k: "2 = length (buckets htA2 ! nat (route htA1 20))" by (simp add: r) (simp add: htA2_def)
  have b: "buckets htA2 ! 0 = [10, 20]" by (simp add: htA2_def)
  from C3_collision_free_build [OF runA_new runA_inserts10 runA_insert20 k]
    runA_new runA_inserts10 runA_insert20 r
  show ?thesis by (simp add: b)
qed

subsection \<open>C4\<close>

text \<open>
  C4 (failed rebuild). When an insert into a table reached by a construction and
  inserts returns false, the secondary tables are what they were before the insert:
  slot arrays, sizes and parameters. Every search gives the answer it gave before, so
  a key that was found is still found.
\<close>

theorem C4_failed_build_keeps_table:
  assumes "PerfectHashing_new rnd n c0 = Inr (ht0, c1)"
      and "insertAll rnd ks (ht0, c1) = Inr (rs, ht, c)"
      and "insert_key rnd key (ht, c) = Inr (False, ht', c')"
  shows "secondLevel ht' = secondLevel ht
       \<and> (\<forall>x. search x ht' = search x ht)
       \<and> (\<forall>x. search x ht = Inr True \<longrightarrow> search x ht' = Inr True)"
proof -
  from new_inv [OF assms(1)] have inv0: "tableInv ht0" .
  from insertAll_inv [OF inv0 assms(2)] have inv: "tableInv ht" .
  from insert_result [OF inv assms(3)] obtain s' where
      h: "ht' = setSecond (addKey ht (nat (route ht key)) key) (nat (route ht key)) s'"
      and s': "s' = secondLevel ht ! nat (route ht key)"
    by auto
  have sl: "secondLevel ht' = secondLevel ht"
    by (simp add: h s' setSecond_simps addKey_simps)
  from insert_params [OF assms(3)] sl have "search x ht' = search x ht" for x
    by (intro search_frame) simp_all
  with sl show ?thesis by simp
qed

theorem C4_failed_build_keeps_table_witness:
  "PerfectHashing_new rndZero 5 0 = Inr (htZ0, 3)
   \<and> insertAll rndZero [7] (htZ0, 3) = Inr ([True], htZ1, 3)
   \<and> insert_key rndZero 7 (htZ1, 3) = Inr (False, htZ2, 303)
   \<and> secondLevel htZ2 = secondLevel htZ1
   \<and> search 7 htZ1 = Inr True \<and> search 7 htZ2 = Inr True"
proof -
  have "search 7 htZ1 = Inr True" by code_simp
  with C4_failed_build_keeps_table [OF runZ_new runZ_inserts7 runZ_dup]
    runZ_new runZ_inserts7 runZ_dup
  show ?thesis by simp
qed

subsection \<open>C5\<close>


subsection \<open>C6\<close>


subsection \<open>C7\<close>

text \<open>
  C7 (single key). In a table reached by a construction and inserts, an insert of a
  key routed to a bucket that is still empty returns true without a call of \<open>rand()\<close>
  (the count of calls is unchanged); afterwards the bucket holds the key, its secondary
  table has the single slot holding the key, size 1, \<open>a = 1\<close>, \<open>b = 0\<close> and the
  shared prime, and the search for the key returns true.
\<close>

theorem C7_single_key:
  assumes "PerfectHashing_new rnd n c0 = Inr (ht0, c1)"
      and "insertAll rnd ks (ht0, c1) = Inr (rs, ht, c)"
      and "0 \<le> route ht key" and "nat (route ht key) < length (buckets ht)"
      and "buckets ht ! nat (route ht key) = []"
  shows "\<exists>ht'. insert_key rnd key (ht, c) = Inr (True, ht', c)
           \<and> buckets ht' ! nat (route ht key) = [key]
           \<and> secondLevel ht' ! nat (route ht key)
               = \<lparr>table = [key], size2 = 1, a2 = 1, b2 = 0, p2 = PRIME\<rparr>
           \<and> search key ht' = Inr True"
proof -
  let ?i = "nat (route ht key)"
  let ?s = "\<lparr>table = [key], size2 = 1, a2 = 1, b2 = 0, p2 = PRIME\<rparr>"
  let ?ht' = "setSecond (addKey ht ?i key) ?i ?s"
  from new_inv [OF assms(1)] have inv0: "tableInv ht0" .
  from insertAll_inv [OF inv0 assms(2)] have inv: "tableInv ht" .
  from tableInv_lengths [OF inv] assms(4) have li: "?i < length (secondLevel ht)" by simp
  from tableInv_params [OF inv] have p: "p1 ht \<noteq> 0" by (simp add: PRIME_neq0)
  from tableInv_sizes [OF inv] assms(4) have n: "primarySize ht \<noteq> 0" by auto
  have k: "to_int (Suc 0) = 1" using to_int_small [of "Suc 0"] by simp
  have ins: "insert_key rnd key (ht, c) = Inr (True, ?ht', c)"
    using assms(3,4,5) li p n k
    by (simp add: insert_key_unfold buildSecondaryTable_def addKey_simps Let_def
        resize_one_update singleton_record)
  from insert_present_new [OF inv ins] have "present ?ht' key" .
  from present_search [OF insert_inv [OF inv ins] this] have "search key ?ht' = Inr True" .
  with ins assms(4,5) li show ?thesis
    by (intro exI [of _ ?ht']) (simp add: setSecond_simps addKey_simps)
qed

theorem C7_single_key_witness:
  "PerfectHashing_new rndZero 5 0 = Inr (htZ0, 3)
   \<and> insertAll rndZero [] (htZ0, 3) = Inr ([], htZ0, 3)
   \<and> route htZ0 7 = 2 \<and> buckets htZ0 ! 2 = []
   \<and> (\<exists>ht'. insert_key rndZero 7 (htZ0, 3) = Inr (True, ht', 3)
           \<and> buckets ht' ! 2 = [7]
           \<and> secondLevel ht' ! 2 = \<lparr>table = [7], size2 = 1, a2 = 1, b2 = 0, p2 = PRIME\<rparr>
           \<and> search 7 ht' = Inr True)"
proof -
  have r: "route htZ0 7 = 2" by (simp add: route_def htZ0_def cmod_def)
  have b: "buckets htZ0 ! 2 = []" by (simp add: htZ0_def)
  have "0 \<le> route htZ0 7" "nat (route htZ0 7) < length (buckets htZ0)"
      "buckets htZ0 ! nat (route htZ0 7) = []"
    by (simp_all add: r) (simp_all add: htZ0_def)
  from C7_single_key [OF runZ_new runZ_nil this] runZ_new runZ_nil r b show ?thesis
    by simp
qed

subsection \<open>C8\<close>

text \<open>
  C8 (frame of insert). For every insert that returns, \<open>insert_frame_lifetime\<close> gives
  the claim: only the bucket the key is routed to changes, and the level-1 parameters
  never do. The code misses the claim on negative keys. In the fresh table with five
  buckets the key -7 is routed to the index -2, and the \<open>push_back\<close> of line 123 is on
  an element before the start of the vector. In the table with one bucket that holds
  the key -3, the key -5 is routed to bucket 0, but the rebuild places the key -3 at the
  slot -3 (line 108), outside the slot array. In both the insert writes to memory that
  belongs to no bucket.
\<close>

theorem C8_insert_writes_outside:
  "PerfectHashing_new rndZero 5 0 = Inr (htZ0, 3)
   \<and> route htZ0 (- 7) = - 2
   \<and> insert_key rndZero (- 7) (htZ0, 3) = Inl OutOfBounds
   \<and> PerfectHashing_new rndZero 1 0 = Inr (htD0, 3)
   \<and> insert_key rndZero (- 3) (htD0, 3) = Inr (True, htN1, 3)
   \<and> route htN1 (- 5) = 0
   \<and> slotOf 1 0 PRIME 4 (- 3) = - 3
   \<and> insert_key rndZero (- 5) (htN1, 3) = Inl OutOfBounds"
proof -
  have "route htZ0 (- 7) = - 2" by (simp add: route_def htZ0_def cmod_def)
  moreover have "route htN1 (- 5) = 0" by (simp add: route_def htN1_def cmod_def)
  moreover have "slotOf 1 0 PRIME 4 (- 3) = - 3" by (simp add: slotOf_def cmod_def PRIME_def)
  ultimately show ?thesis
    using runZ_new runZ_negative runD_new runN_first runN_second by simp
qed

subsection \<open>C9\<close>

text \<open>
  C9 (slot indices). For a non-negative key, non-negative parameters and a positive
  table size, the index \<open>((a * key + b) mod p) mod tableSize\<close> lies in
  \<open>[0, tableSize)\<close>. In a table constructed with at least one bucket and reached by
  inserts that returned, the bucket index and the slot index of a non-negative key are
  inside the vectors, so the search returns true or false; when the inserted keys are
  non-negative too, an insert of the key never reads or writes outside a vector. For
  negative keys the index can be negative: the key -7 is routed to index -2 in the
  fresh table with five buckets, and the key -3 has slot -2 in a table of four slots,
  where search and insert leave the bounds.
\<close>

theorem C9_slot_in_bounds:
  assumes "PerfectHashing_new rnd n c0 = Inr (ht0, c1)"
      and "insertAll rnd ks (ht0, c1) = Inr (rs, ht, c)"
      and "0 < n" and "0 \<le> key"
  shows "(\<forall>a b tableSize h. 0 \<le> a \<and> 0 \<le> b \<and> 0 < tableSize \<and> hashFunction key a b PRIME = Inr h
            \<longrightarrow> 0 \<le> cmod h tableSize \<and> cmod h tableSize < tableSize)
       \<and> 0 \<le> route ht key \<and> route ht key < n
       \<and> length (buckets ht) = nat n \<and> length (secondLevel ht) = nat n
       \<and> (size2 (secondLevel ht ! nat (route ht key)) \<noteq> 0 \<longrightarrow>
            0 \<le> slot (secondLevel ht ! nat (route ht key)) key
            \<and> slot (secondLevel ht ! nat (route ht key)) key < size2 (secondLevel ht ! nat (route ht key))
            \<and> size2 (secondLevel ht ! nat (route ht key))
                = int (length (table (secondLevel ht ! nat (route ht key)))))
       \<and> (search key ht = Inr True \<or> search key ht = Inr False)
       \<and> ((\<forall>k \<in> set ks. 0 \<le> k) \<longrightarrow> insert_key rnd key (ht, c) \<noteq> Inl OutOfBounds)
       \<and> route htZ0 (- 7) = - 2 \<and> search (- 7) htZ0 = Inl OutOfBounds
       \<and> insert_key rndZero (- 7) (htZ0, 3) = Inl OutOfBounds
       \<and> slot (secondLevel htA2 ! 0) (- 3) = - 2 \<and> search (- 3) htA2 = Inl OutOfBounds"
proof -
  let ?i = "nat (route ht key)"
  let ?s = "secondLevel ht ! ?i"
  from new_inv [OF assms(1)] have inv0: "tableInv ht0" .
  from insertAll_inv [OF inv0 assms(2)] have inv: "tableInv ht" .
  from new_result [OF assms(1)] have n0: "primarySize ht0 = n"
      and b0: "buckets ht0 = replicate (nat n) []" by simp_all
  from insertAll_params [OF assms(2)] n0 have n: "primarySize ht = n" by simp
  with assms(3) have pos: "0 < primarySize ht" by simp
  have arith: "\<forall>a b tableSize h. 0 \<le> a \<and> 0 \<le> b \<and> 0 < tableSize \<and> hashFunction key a b PRIME = Inr h
            \<longrightarrow> 0 \<le> cmod h tableSize \<and> cmod h tableSize < tableSize"
  proof (intro allI impI)
    fix a b tableSize h :: int
    assume h: "0 \<le> a \<and> 0 \<le> b \<and> 0 < tableSize \<and> hashFunction key a b PRIME = Inr h"
    then have "h = cmod (a * key + b) PRIME" by (simp add: hashFunction_def PRIME_neq0)
    with h slotOf_range [of a b key tableSize] assms(4)
    show "0 \<le> cmod h tableSize \<and> cmod h tableSize < tableSize" by (simp add: slotOf_def)
  qed
  from route_range [OF inv pos assms(4)] have rt: "0 \<le> route ht key" "?i < length (buckets ht)"
    by simp_all
  from tableInv_sizes [OF inv] tableInv_lengths [OF inv] n
  have lens: "length (buckets ht) = nat n" "length (secondLevel ht) = nat n" by simp_all
  from rt lens have rn: "route ht key < n" by simp
  have slots: "0 \<le> slot ?s key \<and> slot ?s key < size2 ?s \<and> size2 ?s = int (length (table ?s))"
    if nz: "size2 ?s \<noteq> 0"
  proof -
    from tableInv_bucket [OF inv rt(2)] have b: "bucketInv (buckets ht ! ?i) ?s" .
    with nz have ne: "buckets ht ! ?i \<noteq> []" by (auto simp: bucketInv_def)
    with b have par: "p2 ?s = PRIME" "1 \<le> a2 ?s" "0 \<le> b2 ?s" "size2 ?s = int (length (table ?s))"
      by (simp_all add: bucketInv_def)
    from nz par have "0 < size2 ?s" by simp
    moreover from par have "0 \<le> a2 ?s" by simp
    ultimately have "0 \<le> slotOf (a2 ?s) (b2 ?s) PRIME (size2 ?s) key
        \<and> slotOf (a2 ?s) (b2 ?s) PRIME (size2 ?s) key < size2 ?s"
      using par(3) assms(4) by (intro slotOf_range)
    with par show ?thesis by (simp add: slot_slotOf)
  qed
  from search_nonneg [OF inv pos assms(4)]
  have srch: "search key ht = Inr True \<or> search key ht = Inr False" by simp
  have ins: "insert_key rnd key (ht, c) \<noteq> Inl OutOfBounds" if ks: "\<forall>k \<in> set ks. 0 \<le> k"
  proof -
    from rt lens have i0: "?i < length (buckets ht0)" by (simp add: b0)
    from insertAll_keys_subset [OF inv0 assms(2) i0] i0
    have "set (buckets ht ! ?i) \<subseteq> set ks" by (simp add: b0)
    with ks have "\<forall>x \<in> set (buckets ht ! ?i). 0 \<le> x" by blast
    from insert_nonneg [OF inv pos assms(4) this] show ?thesis .
  qed
  have neg1: "route htZ0 (- 7) = - 2" by (simp add: route_def htZ0_def cmod_def)
  have neg2: "search (- 7) htZ0 = Inl OutOfBounds" by code_simp
  have neg3: "insert_key rndZero (- 7) (htZ0, 3) = Inl OutOfBounds" by code_simp
  have neg4: "slot (secondLevel htA2 ! 0) (- 3) = - 2" by (simp add: slot_def htA2_def cmod_def)
  have neg5: "search (- 3) htA2 = Inl OutOfBounds" by code_simp
  from arith rt(1) rn lens slots srch ins neg1 neg2 neg3 neg4 neg5 show ?thesis by blast
qed

theorem C9_slot_in_bounds_witness:
  "PerfectHashing_new rndA 1 0 = Inr (htA0, 3)
   \<and> insertAll rndA [10, 20] (htA0, 3) = Inr ([True, True], htA2, 6)
   \<and> (0::int) < 1 \<and> (0::int) \<le> 20
   \<and> hashFunction 20 1 1 PRIME = Inr 21 \<and> cmod 21 4 = 1
   \<and> route htA2 20 = 0 \<and> slot (secondLevel htA2 ! 0) 20 = 1 \<and> size2 (secondLevel htA2 ! 0) = 4
   \<and> search 20 htA2 = Inr True
   \<and> insert_key rndA 20 (htA2, 6) \<noteq> Inl OutOfBounds"
proof -
  have h: "hashFunction 20 1 1 PRIME = Inr 21" by (simp add: hashFunction_def PRIME_def cmod_def)
  have c: "cmod 21 4 = 1" by (simp add: cmod_def)
  have r: "route htA2 20 = 0" by (simp add: route_def htA2_def cmod_def)
  have s: "slot (secondLevel htA2 ! 0) 20 = 1" "size2 (secondLevel htA2 ! 0) = 4"
    by (simp_all add: slot_def htA2_def cmod_def)
  have f: "search 20 htA2 = Inr True" by code_simp
  have k: "\<forall>k \<in> set [10, 20 :: int]. 0 \<le> k" by simp
  from C9_slot_in_bounds [OF runA_new runA_inserts, of 20] k
  have "insert_key rndA 20 (htA2, 6) \<noteq> Inl OutOfBounds" by simp
  with runA_new runA_inserts h c r s f show ?thesis by simp
qed

subsection \<open>C10\<close>

text \<open>
  C10 (a key whose insert failed). When an insert returns false the key is appended
  to the key list of its bucket all the same and the secondary tables are unchanged.
  After any further inserts, an insert into the same bucket that returns true has
  rebuilt the secondary table over the whole list: the key of the failed insert is in
  the list and the search for it returns true.
\<close>

theorem C10_failed_key_indexed_later:
  assumes "PerfectHashing_new rnd n c0 = Inr (ht0, c1)"
      and "insertAll rnd ks (ht0, c1) = Inr (rs, ht, c)"
      and "insert_key rnd key (ht, c) = Inr (False, ht1, c2)"
      and "insertAll rnd ks' (ht1, c2) = Inr (rs', ht2, c3)"
      and "insert_key rnd key' (ht2, c3) = Inr (True, ht3, c4)"
      and "route ht key' = route ht key"
  shows "buckets ht1 ! nat (route ht key) = buckets ht ! nat (route ht key) @ [key]
       \<and> secondLevel ht1 = secondLevel ht
       \<and> key \<in> set (buckets ht3 ! nat (route ht key))
       \<and> search key ht3 = Inr True"
proof -
  let ?i = "nat (route ht key)"
  from new_inv [OF assms(1)] have inv0: "tableInv ht0" .
  from insertAll_inv [OF inv0 assms(2)] have inv: "tableInv ht" .
  from insert_inv [OF inv assms(3)] have inv1: "tableInv ht1" .
  from insertAll_inv [OF inv1 assms(4)] have inv2: "tableInv ht2" .
  from insert_inv [OF inv2 assms(5)] have inv3: "tableInv ht3" .
  from insert_frame [OF assms(3)] obtain s where
      rt: "0 \<le> route ht key" "?i < length (buckets ht)"
      and h1: "ht1 = setSecond (addKey ht ?i key) ?i s" by blast
  from rt have b1: "buckets ht1 ! ?i = buckets ht ! ?i @ [key]"
    by (simp add: h1 setSecond_simps addKey_simps)
  from insert_result [OF inv assms(3)] have sl: "secondLevel ht1 = secondLevel ht"
    by (auto simp: setSecond_simps addKey_simps)
  have r1: "route ht1 = route ht"
    using insert_params [OF assms(3)] by (intro route_frame) simp_all
  have r2: "route ht2 = route ht1"
    using insertAll_params [OF assms(4)] by (intro route_frame) simp_all
  have r3: "route ht3 = route ht2"
    using insert_params [OF assms(5)] by (intro route_frame) simp_all
  from rt have i1: "?i < length (buckets ht1)" by (simp add: h1 setSecond_simps addKey_simps)
  from insertAll_keys_mono [OF assms(4) i1] b1
  have k2: "key \<in> set (buckets ht2 ! ?i)" by auto
  from assms(6) have rk: "nat (route ht2 key') = ?i" by (simp add: r2 r1)
  from insert_result [OF inv2 assms(5)] obtain s' where
      h3: "ht3 = setSecond (addKey ht2 ?i key') ?i s'"
      and i2: "?i < length (buckets ht2)"
      and ix: "\<forall>x \<in> set (buckets ht2 ! ?i @ [key']). indexed s' x"
    unfolding rk by blast
  from tableInv_lengths [OF inv2] i2 have li: "?i < length (secondLevel ht2)" by simp
  from k2 i2 have k3: "key \<in> set (buckets ht3 ! ?i)"
    by (simp add: h3 setSecond_simps addKey_simps)
  moreover from k2 ix li have "indexed (secondLevel ht3 ! ?i) key"
    by (simp add: h3 setSecond_simps addKey_simps)
  moreover have "route ht3 key = route ht key" by (simp add: r3 r2 r1)
  moreover from i2 have "?i < length (buckets ht3)" by (simp add: h3 setSecond_simps addKey_simps)
  ultimately have "present ht3 key" using rt by (simp add: present_def)
  from present_search [OF inv3 this] b1 sl k3 show ?thesis by simp
qed

theorem C10_failed_key_indexed_later_witness:
  "PerfectHashing_new rndB 1 0 = Inr (htB0, 3)
   \<and> insertAll rndB [10] (htB0, 3) = Inr ([True], htB1, 3)
   \<and> insert_key rndB 20 (htB1, 3) = Inr (False, htB2, 303)
   \<and> insertAll rndB [] (htB2, 303) = Inr ([], htB2, 303)
   \<and> insert_key rndB 30 (htB2, 303) = Inr (True, htB3, 306)
   \<and> route htB1 30 = route htB1 20
   \<and> buckets htB2 ! 0 = buckets htB1 ! 0 @ [20]
   \<and> 20 \<in> set (buckets htB3 ! 0)
   \<and> search 20 htB3 = Inr True"
proof -
  have r: "route htB1 20 = 0" "route htB1 30 = 0" by (simp_all add: route_def htB1_def cmod_def)
  then have e: "route htB1 30 = route htB1 20" by simp
  from C10_failed_key_indexed_later [OF runB_new runB_inserts10 runB_insert20 runB_nil runB_insert30 e]
    runB_new runB_inserts10 runB_insert20 runB_insert30 r
  show ?thesis by simp
qed

end
